theory Spec2Isabelle
  imports Main "HOL-Library.Word" "HOL-Library.List_Lexorder" "HOL-Library.Char_ord"
begin

unbundle bit_operations_syntax

section \<open>Common data\<close>

text \<open>
  Run-time failures of the Go code (index out of range, a failed \<open>cmn.Assert\<close>, a
  negative capacity passed to \<open>make\<close>, an assignment to an entry of a nil map) are
  values of type \<open>panic\<close>; a function that can panic returns \<open>panic + 'a\<close>.
\<close>

datatype panic = IndexOutOfRange | AssertFailed | MakeSliceCap | NilMapWrite

text \<open>
  A cluster node. The declaration of \<open>Snode\<close> is not part of the sources at hand; the
  record carries what the functions below read: the node id, the precomputed 64-bit
  digest (\<open>Digest()\<close>) and the two flags tested by \<open>InMaintOrDecomm()\<close>.
\<close>

record Snode =
  DaemonID :: string
  idDigest :: "64 word"
  inMaint :: bool
  inDecomm :: bool

text \<open>
  Modelled from the spec: \<open>Snode.InMaintOrDecomm\<close> (its body is absent); the data model
  lists "in-maintenance" and "decommissioning" among the node flags.
\<close>

definition InMaintOrDecomm :: "Snode \<Rightarrow> bool" where
  "InMaintOrDecomm si = (inMaint si \<or> inDecomm si)"

text \<open>
  A Go map \<open>map[string]*Snode\<close> is an association list with distinct keys; the order of
  the list is the order in which one \<open>range\<close> loop visits the map. Go leaves that order
  unspecified, so two loops over the same map may see two different lists with the same
  content.
\<close>

type_synonym NodeMap = "(string \<times> Snode) list"

section \<open>Formatting of integers\<close>

text \<open>
  \<open>fmt\<close>'s verb \<open>%d\<close>: the decimal digits of a natural number, most significant
  first.
\<close>

definition digit :: "nat \<Rightarrow> char" where
  "digit d = ''0123456789'' ! d"

function digits :: "nat \<Rightarrow> string" where
  "digits k = (if k < 10 then [digit k] else digits (k div 10) @ [digit (k mod 10)])"
  by pat_completeness auto
termination
  by (relation "measure (\<lambda>k. k)") auto

declare digits.simps [simp del]

definition itoa :: "int \<Rightarrow> string" where
  "itoa i = (if i < 0 then ''-'' @ digits (nat (- i)) else digits (nat i))"

section \<open>Proxy download coordinator: broadcast of admin requests\<close>

record dlResponse =
  body :: string
  statusCode :: int
  err :: "string option"

record DlStatusResp =
  Finished :: int
  Total :: int

definition StatusBadRequest :: int where "StatusBadRequest = 400"
definition StatusNotFound :: int where "StatusNotFound = 404"
definition StatusRequestTimeout :: int where "StatusRequestTimeout = 408"
definition MethodGet :: string where "MethodGet = ''GET''"
definition MethodDelete :: string where "MethodDelete = ''DELETE''"

text \<open>
  The classification loop of \<open>broadcastDownloadRequest\<close> (lines 89-102). The slice
  \<open>validResponses := responses[:0]\<close> shares its backing array with \<open>responses\<close>, so
  appending a valid reply writes into that array: \<open>arr\<close> is the backing array,
  \<open>nvalid\<close> the length of \<open>validResponses\<close>. The \<open>range\<close> loop reads element \<open>i\<close>
  before the append of that iteration writes at \<open>nvalid \<le> i\<close>.
\<close>

record classified =
  arr :: "dlResponse list"
  nvalid :: nat
  notFoundCnt :: nat
  errors :: "dlResponse list"

definition classifyStep :: "classified \<Rightarrow> nat \<Rightarrow> classified" where
  "classifyStep st i =
     (let resp = arr st ! i in
      if statusCode resp \<ge> StatusBadRequest then
        (if statusCode resp = StatusNotFound
         then st\<lparr>notFoundCnt := notFoundCnt st + 1\<rparr>
         else st\<lparr>errors := errors st @ [resp]\<rparr>)
      else st\<lparr>arr := (arr st)[nvalid st := resp], nvalid := nvalid st + 1\<rparr>)"

definition classify :: "dlResponse list \<Rightarrow> classified" where
  "classify responses =
     foldl classifyStep \<lparr>arr = responses, nvalid = 0, notFoundCnt = 0, errors = []\<rparr>
       [0 ..< length responses]"

text \<open>
  \<open>unmarshal\<close> stands for \<open>jsoniter.Unmarshal\<close> into a \<open>DlStatusResp\<close> and
  \<open>sprintf\<close> for the \<open>fmt.Sprintf\<close> of the status line (its percentage is a float);
  both are outside the sources and are parameters. \<open>cmn.AssertNoErr\<close> and
  \<open>cmn.AssertMsg(false, _)\<close> panic.
\<close>

fun unmarshalAll :: "(string \<Rightarrow> DlStatusResp option) \<Rightarrow> dlResponse list \<Rightarrow> panic + DlStatusResp list" where
  "unmarshalAll unmarshal [] = Inr []"
| "unmarshalAll unmarshal (r # rs) =
     (case unmarshal (body r) of
        None \<Rightarrow> Inl AssertFailed
      | Some s \<Rightarrow> (case unmarshalAll unmarshal rs of Inl p \<Rightarrow> Inl p | Inr ss \<Rightarrow> Inr (s # ss)))"

definition aggregate ::
  "(string \<Rightarrow> DlStatusResp option) \<Rightarrow> (int \<Rightarrow> int \<Rightarrow> string) \<Rightarrow> string \<Rightarrow> dlResponse list
     \<Rightarrow> panic + (string \<times> string option)" where
  "aggregate unmarshal sprintf method responses =
     (let st = classify responses;
          responses' = arr st;
          validResponses = take (nvalid st) (arr st) in
      if notFoundCnt st = length responses' then
        (case responses' of [] \<Rightarrow> Inl IndexOutOfRange | r # _ \<Rightarrow> Inr ('''', err r))
      else if length (errors st) > 0 then
        (case errors st of [] \<Rightarrow> Inl IndexOutOfRange | e # _ \<Rightarrow> Inr ('''', err e))
      else if method = MethodGet then
        (case unmarshalAll unmarshal validResponses of
           Inl p \<Rightarrow> Inl p
         | Inr stats \<Rightarrow>
             Inr (sprintf (sum_list (map Finished stats)) (sum_list (map Total stats)), None))
      else if method = MethodDelete then
        (case responses' of [] \<Rightarrow> Inl IndexOutOfRange | r # _ \<Rightarrow> Inr (body r, None))
      else Inl AssertFailed)"

text \<open>
  The whole function: one request per entry of \<open>smap.Tmap\<close>; \<open>call si\<close> is the reply of
  target \<open>si\<close> (\<open>targetDownloadRequest\<close>), and the replies are read from the channel in
  the order of \<open>tmap\<close>.
\<close>

definition broadcastDownloadRequest ::
  "(string \<Rightarrow> DlStatusResp option) \<Rightarrow> (int \<Rightarrow> int \<Rightarrow> string) \<Rightarrow> (Snode \<Rightarrow> dlResponse)
     \<Rightarrow> string \<Rightarrow> NodeMap \<Rightarrow> panic + (string \<times> string option)" where
  "broadcastDownloadRequest unmarshal sprintf call method tmap =
     aggregate unmarshal sprintf method (map (\<lambda>(_, si). call si) tmap)"

text \<open>The three kinds of reply told apart by the classification loop.\<close>

definition isValid :: "dlResponse \<Rightarrow> bool" where
  "isValid r = (\<not> statusCode r \<ge> StatusBadRequest)"

definition isNotFound :: "dlResponse \<Rightarrow> bool" where
  "isNotFound r = (statusCode r \<ge> StatusBadRequest \<and> statusCode r = StatusNotFound)"

definition isOtherError :: "dlResponse \<Rightarrow> bool" where
  "isOtherError r = (statusCode r \<ge> StatusBadRequest \<and> statusCode r \<noteq> StatusNotFound)"

text \<open>The state of the classification loop after \<open>k\<close> iterations, in closed form.\<close>

definition classifiedUpto :: "dlResponse list \<Rightarrow> nat \<Rightarrow> classified" where
  "classifiedUpto rs k =
     \<lparr>arr = filter isValid (take k rs) @ drop (length (filter isValid (take k rs))) rs,
      nvalid = length (filter isValid (take k rs)),
      notFoundCnt = length (filter isNotFound (take k rs)),
      errors = filter isOtherError (take k rs)\<rparr>"

text \<open>The method switch of lines 110-131, on the valid replies \<open>vs\<close>.\<close>

definition respond ::
  "(string \<Rightarrow> DlStatusResp option) \<Rightarrow> (int \<Rightarrow> int \<Rightarrow> string) \<Rightarrow> string \<Rightarrow> dlResponse list
     \<Rightarrow> panic + (string \<times> string option)" where
  "respond u sp m vs =
     (if m = MethodGet then
        (case unmarshalAll u vs of Inl p \<Rightarrow> Inl p
         | Inr stats \<Rightarrow> Inr (sp (sum_list (map Finished stats)) (sum_list (map Total stats)), None))
      else if m = MethodDelete then Inr (body (hd vs), None)
      else Inl AssertFailed)"

text \<open>A small cluster and its replies, for concrete evaluation.\<close>

definition demoNode :: "string \<Rightarrow> Snode" where
  "demoNode i = \<lparr>DaemonID = i, idDigest = 0, inMaint = False, inDecomm = False\<rparr>"

definition demoReply :: "Snode \<Rightarrow> dlResponse" where
  "demoReply si =
     (if DaemonID si = ''t1'' then \<lparr>body = ''b1'', statusCode = 404, err = Some ''e1''\<rparr>
      else if DaemonID si = ''t2'' then \<lparr>body = ''b2'', statusCode = 200, err = None\<rparr>
      else if DaemonID si = ''t3'' then \<lparr>body = ''b3'', statusCode = 500, err = Some ''e3''\<rparr>
      else \<lparr>body = ''b4'', statusCode = 404, err = Some ''e4''\<rparr>)"

section \<open>Placement engine (HRW)\<close>

text \<open>
  \<open>xoshiro256.Hash\<close> and \<open>xxhash.Checksum64S(_, cos.MLCG32)\<close> are outside the sources:
  they are the parameters \<open>mix\<close> (a function on 64-bit words) and \<open>xxh\<close> (from the
  bytes of a name to its 64-bit digest) of every function below.
\<close>

datatype hrwErr =
    ErrNoNodes nat                \<comment> \<open>\<open>cmn.NewErrNoNodes(apc.Target, len(smap.Tmap))\<close>\<close>
  | ErrNotEnoughTargets int int   \<comment> \<open>\<open>cmn.ErrNotEnoughTargets\<close>: required, available\<close>
  | HrwPanic panic

definition hrwScore :: "(64 word \<Rightarrow> 64 word) \<Rightarrow> 64 word \<Rightarrow> Snode \<Rightarrow> 64 word" where
  "hrwScore mix digest tsi = mix (idDigest tsi XOR digest)"

text \<open>
  The loop of \<open>HrwHash2T\<close>: the state is \<open>(max, si)\<close>, with \<open>si = None\<close> for the nil
  pointer; \<open>tmap\<close> is \<open>smap.Tmap\<close> in the order in which this loop visits it.
\<close>

definition hrwStep ::
  "(64 word \<Rightarrow> 64 word) \<Rightarrow> 64 word \<Rightarrow> bool \<Rightarrow> 64 word \<times> Snode option \<Rightarrow> string \<times> Snode
     \<Rightarrow> 64 word \<times> Snode option" where
  "hrwStep mix digest skipMaint st e =
     (let tsi = snd e in
      if skipMaint \<and> InMaintOrDecomm tsi then st
      else let cs = mix (idDigest tsi XOR digest) in
           if cs \<ge> fst st then (cs, Some tsi) else st)"

definition HrwHash2T ::
  "(64 word \<Rightarrow> 64 word) \<Rightarrow> NodeMap \<Rightarrow> 64 word \<Rightarrow> bool \<Rightarrow> hrwErr + Snode" where
  "HrwHash2T mix tmap digest skipMaint =
     (case snd (foldl (hrwStep mix digest skipMaint) (0, None) tmap) of
        None \<Rightarrow> Inl (ErrNoNodes (length tmap))
      | Some si \<Rightarrow> Inr si)"

definition HrwName2T ::
  "(64 word \<Rightarrow> 64 word) \<Rightarrow> (string \<Rightarrow> 64 word) \<Rightarrow> NodeMap \<Rightarrow> string \<Rightarrow> bool \<Rightarrow> hrwErr + Snode" where
  "HrwName2T mix xxh tmap uname skipMaint = HrwHash2T mix tmap (xxh uname) skipMaint"

text \<open>
  \<open>hrwList\<close>: two parallel slices and the requested length. \<open>make\<close> with a negative
  capacity panics.
\<close>

record hrwList =
  hs :: "64 word list"
  sis :: "Snode list"
  hl_n :: int

definition newHrwList :: "int \<Rightarrow> panic + hrwList" where
  "newHrwList count =
     (if count < 0 then Inl MakeSliceCap else Inr \<lparr>hs = [], sis = [], hl_n = count\<rparr>)"

definition get :: "hrwList \<Rightarrow> Snode list" where
  "get hl = sis hl"

text \<open>
  The insertion loop of \<open>hrwList.add\<close> (lines 1039-1044), started at \<open>idx\<close>: every
  index is checked against the length of the slice it reads or writes.
\<close>

fun bubble :: "nat \<Rightarrow> hrwList \<Rightarrow> panic + hrwList" where
  "bubble 0 hl = Inr hl"
| "bubble (Suc i) hl =
     (if Suc i < length (hs hl) then
        (if hs hl ! i < hs hl ! Suc i then
           (if Suc i < length (sis hl) then
              bubble i (hl\<lparr>hs := (hs hl)[Suc i := hs hl ! i, i := hs hl ! Suc i],
                           sis := (sis hl)[Suc i := sis hl ! i, i := sis hl ! Suc i]\<rparr>)
            else Inl IndexOutOfRange)
         else Inr hl)
      else Inl IndexOutOfRange)"

text \<open>
  \<open>hrwList.add\<close>. With \<open>l == hl.n\<close> the test reads \<open>hl.hs[l-1]\<close>, which is index
  \<open>-1\<close> when \<open>l = 0\<close>.
\<close>

definition add :: "64 word \<Rightarrow> Snode \<Rightarrow> hrwList \<Rightarrow> panic + hrwList" where
  "add weight sinfo hl =
     (let l = length (sis hl) in
      if int l = hl_n hl then
        (if l = 0 \<or> l - 1 \<ge> length (hs hl) then Inl IndexOutOfRange
         else if weight \<le> hs hl ! (l - 1) then Inr hl
         else bubble (l - 1) (hl\<lparr>hs := (hs hl)[l - 1 := weight], sis := (sis hl)[l - 1 := sinfo]\<rparr>))
      else bubble l (hl\<lparr>hs := hs hl @ [weight], sis := sis hl @ [sinfo]\<rparr>))"

text \<open>The loop of \<open>HrwTargetList\<close> over \<open>smap.Tmap\<close> (lines 1003-1009).\<close>

fun addAll :: "(64 word \<Rightarrow> 64 word) \<Rightarrow> 64 word \<Rightarrow> NodeMap \<Rightarrow> hrwList \<Rightarrow> panic + hrwList" where
  "addAll mix digest [] hl = Inr hl"
| "addAll mix digest (e # rest) hl =
     (let tsi = snd e; cs = mix (idDigest tsi XOR digest) in
      if InMaintOrDecomm tsi then addAll mix digest rest hl
      else (case add cs tsi hl of
              Inl p \<Rightarrow> Inl p
            | Inr hl' \<Rightarrow> addAll mix digest rest hl'))"

text \<open>
  Modelled from the spec: \<open>Smap.CountTargets\<close> (its body is absent); the comment above
  \<open>HrwTargetList\<close> compares \<open>count\<close> with the "length of Smap.Tmap".
\<close>

definition CountTargets :: "NodeMap \<Rightarrow> int" where
  "CountTargets tmap = int (length tmap)"

definition HrwTargetList ::
  "(64 word \<Rightarrow> 64 word) \<Rightarrow> (string \<Rightarrow> 64 word) \<Rightarrow> NodeMap \<Rightarrow> string \<Rightarrow> int
     \<Rightarrow> hrwErr + Snode list" where
  "HrwTargetList mix xxh tmap uname count =
     (let cnt = CountTargets tmap in
      if cnt < count then Inl (ErrNotEnoughTargets count cnt)
      else
        let digest = xxh uname in
        (case newHrwList count of
           Inl p \<Rightarrow> Inl (HrwPanic p)
         | Inr hlist \<Rightarrow>
            (case addAll mix digest tmap hlist of
               Inl p \<Rightarrow> Inl (HrwPanic p)
             | Inr hlist' \<Rightarrow>
                 let sis = get hlist' in
                 if count \<noteq> cnt \<and> int (length sis) < count
                 then Inl (ErrNotEnoughTargets count (int (length sis)))
                 else Inr sis)))"

text \<open>
  The eligible targets of a map, in the order of the loop, and the insertion the loop
  of \<open>add\<close> performs on a list of (weight, node) pairs: the new pair goes behind every
  pair whose weight is not smaller.
\<close>

definition eligible :: "NodeMap \<Rightarrow> Snode list" where
  "eligible tmap = filter (\<lambda>si. \<not> InMaintOrDecomm si) (map snd tmap)"

fun ins :: "64 word \<times> Snode \<Rightarrow> (64 word \<times> Snode) list \<Rightarrow> (64 word \<times> Snode) list" where
  "ins x [] = [x]"
| "ins x (y # ys) = (if fst y < fst x then x # y # ys else y # ins x ys)"

definition isort :: "(64 word \<times> Snode) list \<Rightarrow> (64 word \<times> Snode) list" where
  "isort xs = foldl (\<lambda>E x. ins x E) [] xs"

definition descending :: "(64 word \<times> Snode) list \<Rightarrow> bool" where
  "descending E = sorted_wrt (\<lambda>a b. fst a \<ge> fst b) E"

text \<open>Two nodes with the same digest, for concrete evaluation.\<close>

definition nodeA :: Snode where
  "nodeA = \<lparr>DaemonID = ''A'', idDigest = 5, inMaint = False, inDecomm = False\<rparr>"

definition nodeB :: Snode where
  "nodeB = \<lparr>DaemonID = ''B'', idDigest = 5, inMaint = False, inDecomm = False\<rparr>"

definition nodeC :: Snode where
  "nodeC = \<lparr>DaemonID = ''C'', idDigest = 9, inMaint = False, inDecomm = False\<rparr>"

definition nodeM :: Snode where
  "nodeM = \<lparr>DaemonID = ''M'', idDigest = 7, inMaint = True, inDecomm = False\<rparr>"

definition scored :: "(64 word \<Rightarrow> 64 word) \<Rightarrow> 64 word \<Rightarrow> NodeMap \<Rightarrow> (64 word \<times> Snode) list" where
  "scored mix digest tmap = map (\<lambda>si. (hrwScore mix digest si, si)) (eligible tmap)"

text \<open>The list \<open>HrwTargetList\<close> returns when it succeeds, in closed form.\<close>

definition topk :: "(64 word \<Rightarrow> 64 word) \<Rightarrow> 64 word \<Rightarrow> NodeMap \<Rightarrow> int \<Rightarrow> Snode list" where
  "topk mix d tmap count = map snd (take (nat count) (isort (scored mix d tmap)))"

text \<open>The targets that take part in the loop of \<open>HrwHash2T\<close>.\<close>

definition candidates :: "bool \<Rightarrow> NodeMap \<Rightarrow> Snode list" where
  "candidates skipMaint tmap =
     filter (\<lambda>si. \<not> (skipMaint \<and> InMaintOrDecomm si)) (map snd tmap)"

text \<open>
  The loop invariant of \<open>HrwHash2T\<close>: over the set \<open>S\<close> of candidates visited so far,
  the state holds a candidate of maximal score, or nothing when \<open>S\<close> is empty.
\<close>

definition hrwGood ::
  "(64 word \<Rightarrow> 64 word) \<Rightarrow> 64 word \<Rightarrow> Snode set \<Rightarrow> 64 word \<times> Snode option \<Rightarrow> bool" where
  "hrwGood mix d S st =
     ((snd st = None \<and> fst st = 0 \<and> S = {}) \<or>
      (\<exists>y. snd st = Some y \<and> y \<in> S \<and> fst st = hrwScore mix d y \<and>
           (\<forall>z\<in>S. hrwScore mix d z \<le> fst st)))"

section \<open>Target download executor: the jogger queue\<close>

record DlObj =
  Objname :: string
  Link :: string

text \<open>
  \<open>request\<close> without its response channel, and \<open>task\<close> without its back pointer,
  contexts and channels: the queue reads none of them.
\<close>

record request =
  action :: string
  req_id :: string
  obj :: DlObj
  bucket :: string
  bckProvider :: string
  timeout :: string
  fqn :: string

record task =
  request :: request
  currentSize :: int

definition queueChSize :: nat where
  "queueChSize = 200"

text \<open>\<open>putInQueueTimeout = time.Second * 10\<close>: a \<open>time.Duration\<close>, in nanoseconds.\<close>

definition putInQueueTimeout :: nat where
  "putInQueueTimeout = 1000000000 * 10"

text \<open>\<open>fmt.Sprintf("%s|%s|%s", req.obj.Link, req.bucket, req.obj.Objname)\<close>\<close>

definition uid :: "request \<Rightarrow> string" where
  "uid req = Link (obj req) @ ''|'' @ bucket req @ ''|'' @ Objname (obj req)"

text \<open>
  The queue: \<open>q_ch\<close> is the content of the buffered channel \<open>ch\<close> (capacity
  \<open>queueChSize\<close>), oldest task first, and \<open>q_m\<close> the set of uids \<open>m\<close>
  (\<open>map[string]struct{}\<close>). Fields whose Go names are one letter, or the name of a
  function of the logic, carry the prefix of their record. The channel is open and not
  nil: \<open>stop\<close> and \<open>cleanup\<close> end the life of a queue.
\<close>

record queue =
  q_ch :: "task list"
  q_m :: "string set"

text \<open>
  \<open>put\<close> starts its timer, waits for the lock of the queue and then reaches its
  \<open>select\<close> statement. What the rest of the program does meanwhile is the environment
  of the call, with times in nanoseconds:
  \<^item> \<open>lockedAt\<close>: the time from \<open>time.NewTimer\<close> to the \<open>select\<close> statement, that is
    the wait for \<open>q.Lock()\<close>; the queue \<open>q\<close> given to \<open>put\<close> is the queue at that
    moment;
  \<^item> \<open>recvAfter\<close>: the time from there to the next receive from \<open>ch\<close> (by
    \<open>queue.get\<close>, which receives without the lock), \<open>None\<close> when no receive comes;
  \<^item> \<open>pick\<close>: the case that Go's pseudo-random choice takes when both cases of the
    \<open>select\<close> can proceed.
\<close>

datatype selectCase = ChanSend | TimerFired

record putEnv =
  lockedAt :: nat
  recvAfter :: "nat option"
  pick :: selectCase

text \<open>
  The moments, counted from \<open>time.NewTimer\<close>, from which the two cases of the
  \<open>select\<close> can proceed. The send \<open>q.ch <- t\<close> can proceed at once when the buffer
  holds fewer than \<open>queueChSize\<close> tasks, and otherwise with the next receive. The
  receive \<open><-timer.C\<close> can proceed once \<open>putInQueueTimeout\<close> has passed.
\<close>

definition sendReadyAt :: "putEnv \<Rightarrow> task list \<Rightarrow> nat option" where
  "sendReadyAt env ch =
     (if length ch < queueChSize then Some (lockedAt env)
      else map_option (\<lambda>d. lockedAt env + d) (recvAfter env))"

definition timerReadyAt :: "putEnv \<Rightarrow> nat" where
  "timerReadyAt env = max (lockedAt env) putInQueueTimeout"

text \<open>
  The \<open>select\<close> statement of \<open>put\<close> takes the case that can proceed first, and
  \<open>pick\<close> when both can proceed at the same moment.
\<close>

definition selectPut :: "putEnv \<Rightarrow> task list \<Rightarrow> selectCase" where
  "selectPut env ch =
     (case sendReadyAt env ch of
        None \<Rightarrow> TimerFired
      | Some s \<Rightarrow>
          if s < timerReadyAt env then ChanSend
          else if timerReadyAt env < s then TimerFired
          else pick env)"

datatype putError = ErrPutTimeout task
  \<comment> \<open>"timeout when trying to put task %v in queue, try later"\<close>

text \<open>
  \<open>queue.put\<close>. A send that had to wait for a receive finds the buffer without its
  oldest task.
\<close>

definition put :: "putEnv \<Rightarrow> queue \<Rightarrow> task \<Rightarrow> queue \<times> bool \<times> putError option \<times> int" where
  "put env q t =
     (if uid (request t) \<in> q_m q then (q, False, None, 0)
      else (case selectPut env (q_ch q) of
              TimerFired \<Rightarrow> (q, False, Some (ErrPutTimeout t), StatusRequestTimeout)
            | ChanSend \<Rightarrow>
                (q\<lparr>q_ch := (if length (q_ch q) < queueChSize then q_ch q else tl (q_ch q)) @ [t],
                   q_m := insert (uid (request t)) (q_m q)\<rparr>, True, None, 0)))"

text \<open>\<open>queue.delete\<close>\<close>

definition delete :: "queue \<Rightarrow> request \<Rightarrow> queue \<times> bool" where
  "delete q req = (q\<lparr>q_m := q_m q - {uid req}\<rparr>, uid req \<in> q_m q)"

text \<open>
  A task, a queue that holds one task and a queue whose buffer is full, for concrete
  evaluation.
\<close>

definition demoTask :: "string \<Rightarrow> task" where
  "demoTask name =
     \<lparr>request = \<lparr>action = ''DOWNLOAD'', req_id = ''job'', obj = \<lparr>Objname = name, Link = ''http://x/'' @ name\<rparr>,
                  bucket = ''b'', bckProvider = '''', timeout = '''', fqn = ''''\<rparr>,
      currentSize = 0\<rparr>"

definition demoQueue :: queue where
  "demoQueue = \<lparr>q_ch = [demoTask ''a''], q_m = {''http://x/a|b|a''}\<rparr>"

definition fullQueue :: queue where
  "fullQueue = \<lparr>q_ch = replicate 200 (demoTask ''a''), q_m = {''http://x/a|b|a''}\<rparr>"

section \<open>Shared data-mover\<close>

text \<open>
  Modelled from the spec: the data mover \<open>DM\<close> behind \<open>sharedDM\<close> (\<open>dm.RegRecv\<close>,
  \<open>dm.Open\<close>, \<open>dm.Close\<close>, \<open>dm.UnregRecv\<close> and the flag \<open>dm.stage.opened\<close> are
  absent). By the spec, opening "acquires registration with the transport" and closing
  "unregisters and tears down the transport": the state of a \<open>DM\<close> is whether its
  receive endpoint is registered and whether its streams are open. Registration can
  fail; whether it does is decided by the transport, the argument \<open>ok\<close>.
\<close>

record DM =
  opened :: bool
  regged :: bool

definition DM_RegRecv :: "bool \<Rightarrow> DM \<Rightarrow> DM \<times> string option" where
  "DM_RegRecv ok d = (if ok then (d\<lparr>regged := True\<rparr>, None) else (d, Some ''RegRecv''))"

definition DM_Open :: "DM \<Rightarrow> DM" where
  "DM_Open d = d\<lparr>opened := True\<rparr>"

definition DM_Close :: "DM \<Rightarrow> DM" where
  "DM_Close d = d\<lparr>opened := False\<rparr>"

definition DM_UnregRecv :: "DM \<Rightarrow> DM" where
  "DM_UnregRecv d = d\<lparr>regged := False\<rparr>"

text \<open>
  \<open>sharedDM\<close>: \<open>rxcbs\<close> is \<open>None\<close> for the nil map, and otherwise the receiver table as
  an association list in the order in which a \<open>range\<close> loop visits it. The two mutexes
  serialise the methods; each method is one step. \<open>debug.Assert\<close> is compiled out of
  production builds and is not modelled.
\<close>

record 'cb sharedDM =
  dm :: DM
  rxcbs :: "(string \<times> 'cb) list option"

definition isOpen :: "'cb sharedDM \<Rightarrow> bool" where
  "isOpen sdm = opened (dm sdm)"

definition trname :: string where
  "trname = ''shared-dm''"

text \<open>The keys of the receiver table; \<open>len\<close> and \<open>range\<close> of a nil map see no entry.\<close>

definition registered :: "'cb sharedDM \<Rightarrow> string list" where
  "registered sdm = (case rxcbs sdm of None \<Rightarrow> [] | Some tbl \<Rightarrow> map fst tbl)"

definition IsActive :: "'cb sharedDM \<Rightarrow> bool" where
  "IsActive sdm = (length (registered sdm) > 0)"

definition Open :: "bool \<Rightarrow> 'cb sharedDM \<Rightarrow> 'cb sharedDM \<times> string option" where
  "Open ok sdm =
     (if isOpen sdm then (sdm, None)
      else
        let sdm1 = sdm\<lparr>rxcbs := Some []\<rparr> in
        (case DM_RegRecv ok (dm sdm1) of
           (d, Some e) \<Rightarrow> (sdm1\<lparr>dm := d\<rparr>, Some e)
         | (d, None) \<Rightarrow> (sdm1\<lparr>dm := DM_Open d\<rparr>, None)))"

text \<open>
  \<open>Close\<close>. The loop \<open>for xid = range sdm.rxcbs { break }\<close> leaves in \<open>xid\<close> the first
  key visited, or the empty string; the error is
  \<open>fmt.Errorf("cannot close %s: [%s, %d]", sdm.trname(), xid, l)\<close>.
\<close>

definition closeError :: "string \<Rightarrow> nat \<Rightarrow> string" where
  "closeError xid l = ''cannot close '' @ trname @ '': ['' @ xid @ '', '' @ itoa (int l) @ '']''"

definition Close :: "'cb sharedDM \<Rightarrow> 'cb sharedDM \<times> string option" where
  "Close sdm =
     (if \<not> isOpen sdm then (sdm, None)
      else
        let xid = (case registered sdm of [] \<Rightarrow> '''' | k # _ \<Rightarrow> k);
            l = length (registered sdm) in
        if l > 0 then (sdm, Some (closeError xid l))
        else (sdm\<lparr>rxcbs := None, dm := DM_UnregRecv (DM_Close (dm sdm))\<rparr>, None))"

text \<open>
  \<open>RegRecv\<close> and \<open>UnregRecv\<close>: nothing happens on a closed transport; an assignment
  to an entry of a nil map panics, \<open>delete\<close> on a nil map does nothing.
\<close>

definition RegRecv :: "string \<Rightarrow> 'cb \<Rightarrow> 'cb sharedDM \<Rightarrow> panic + 'cb sharedDM" where
  "RegRecv xid cb sdm =
     (if \<not> isOpen sdm then Inr sdm
      else (case rxcbs sdm of
              None \<Rightarrow> Inl NilMapWrite
            | Some tbl \<Rightarrow>
                Inr (sdm\<lparr>rxcbs := Some (if xid \<in> fst ` set tbl
                                          then map (\<lambda>(k, v). if k = xid then (k, cb) else (k, v)) tbl
                                          else tbl @ [(xid, cb)])\<rparr>)))"

definition UnregRecv :: "string \<Rightarrow> 'cb sharedDM \<Rightarrow> 'cb sharedDM" where
  "UnregRecv xid sdm =
     (if \<not> isOpen sdm then sdm
      else sdm\<lparr>rxcbs := map_option (filter (\<lambda>(k, v). k \<noteq> xid)) (rxcbs sdm)\<rparr>)"

text \<open>
  The states of the shared data-mover: the zero value of the global \<open>SDM\<close> after
  \<open>InitSDM\<close> (closed, nil table), and every state a method call leads to.
\<close>

definition initSDM :: "'cb sharedDM" where
  "initSDM = \<lparr>dm = \<lparr>opened = False, regged = False\<rparr>, rxcbs = None\<rparr>"

inductive reachable :: "'cb sharedDM \<Rightarrow> bool" where
  r_init: "reachable initSDM"
| r_open: "reachable s \<Longrightarrow> reachable (fst (Open ok s))"
| r_close: "reachable s \<Longrightarrow> reachable (fst (Close s))"
| r_reg: "reachable s \<Longrightarrow> RegRecv xid cb s = Inr s' \<Longrightarrow> reachable s'"
| r_unreg: "reachable s \<Longrightarrow> reachable (UnregRecv xid s)"

text \<open>Two states for concrete evaluation: freshly opened, and with one receiver.\<close>

definition sdmOpened :: "nat sharedDM" where
  "sdmOpened = \<lparr>dm = \<lparr>opened = True, regged = True\<rparr>, rxcbs = Some []\<rparr>"

definition sdmBusy :: "nat sharedDM" where
  "sdmBusy = \<lparr>dm = \<lparr>opened = True, regged = True\<rparr>, rxcbs = Some [(''job-1'', 7)]\<rparr>"

section \<open>Proxy download coordinator: the range template\<close>

text \<open>
  \<open>fmt.Sprintf("%0*d", wid, i)\<close>. With a width \<open>wid \<ge> 0\<close> the digits are padded with
  zeros to the width, one less for a negative number, whose sign comes first. A negative
  width is the flag \<open>-\<close> with the width \<open>-wid\<close>: the number is padded with spaces on
  the right and the flag \<open>0\<close> is dropped.
\<close>

definition zpad :: "nat \<Rightarrow> string \<Rightarrow> string" where
  "zpad w s = replicate (w - length s) CHR ''0'' @ s"

definition sprintf0d :: "int \<Rightarrow> int \<Rightarrow> string" where
  "sprintf0d wid i =
     (if wid < 0 then itoa i @ replicate (nat (- wid) - length (itoa i)) CHR '' ''
      else if i < 0 then ''-'' @ zpad (nat wid - 1) (digits (nat (- i)))
      else zpad (nat wid) (digits (nat i)))"

text \<open>\<open>fmt.Sprintf("%s%0*d%s", prefix, digitCount, i, suffix)\<close>\<close>

definition objnameOf :: "string \<Rightarrow> string \<Rightarrow> int \<Rightarrow> int \<Rightarrow> string" where
  "objnameOf prefix suffix digitCount i = prefix @ sprintf0d digitCount i @ suffix"

text \<open>Go's \<open>int\<close> is 64 bits wide on the supported platforms; \<open>i += step\<close> wraps around.\<close>

definition wrap64 :: "int \<Rightarrow> int" where
  "wrap64 x = (x + 2 ^ 63) mod 2 ^ 64 - 2 ^ 63"

text \<open>
  The loop of \<open>rangeDownloadHandler\<close> (lines 323-326) from the values
  \<open>cmn.ParseBashTemplate\<close> returns (the parser is absent from the sources: its results are
  arguments). \<open>objects\<close> is the map \<open>cmn.SimpleKVs\<close> from object name to link. The
  loop does not end when \<open>i\<close> wraps around below \<open>end\<close> for ever: the result is then
  \<open>None\<close>.
\<close>

partial_function (option) rangeLoop ::
  "string \<Rightarrow> string \<Rightarrow> string \<Rightarrow> int \<Rightarrow> int \<Rightarrow> int \<Rightarrow> int \<Rightarrow> (string \<rightharpoonup> string)
     \<Rightarrow> (string \<rightharpoonup> string) option" where
  "rangeLoop base prefix suffix digitCount end step i objects =
     (if i \<le> end then
        rangeLoop base prefix suffix digitCount end step (wrap64 (i + step))
          (objects(objnameOf prefix suffix digitCount i \<mapsto> base @ objnameOf prefix suffix digitCount i))
      else Some objects)"

definition rangeObjects ::
  "string \<Rightarrow> string \<Rightarrow> string \<Rightarrow> int \<Rightarrow> int \<Rightarrow> int \<Rightarrow> int \<Rightarrow> (string \<rightharpoonup> string) option" where
  "rangeObjects base prefix suffix start end step digitCount =
     rangeLoop base prefix suffix digitCount end step start Map.empty"

text \<open>The indices \<open>A, A+S, ...\<close> up to \<open>B\<close> of a template.\<close>

definition indices :: "int \<Rightarrow> int \<Rightarrow> int \<Rightarrow> int set" where
  "indices start end step = {i. start \<le> i \<and> i \<le> end \<and> (i - start) mod step = 0}"

text \<open>The map the loop builds from \<open>objects\<close> when it starts at \<open>i\<close>.\<close>

definition rangeResult ::
  "string \<Rightarrow> string \<Rightarrow> string \<Rightarrow> int \<Rightarrow> int \<Rightarrow> int \<Rightarrow> int \<Rightarrow> (string \<rightharpoonup> string)
     \<Rightarrow> (string \<rightharpoonup> string)" where
  "rangeResult base prefix suffix digitCount end step i objects =
     (\<lambda>s. if s \<in> objnameOf prefix suffix digitCount ` indices i end step
          then Some (base @ s) else objects s)"

text \<open>The value of a string of decimal digits, and digits at a fixed width.\<close>

definition digitVal :: "char \<Rightarrow> nat" where
  "digitVal c = of_char c - 48"

definition decVal :: "string \<Rightarrow> nat" where
  "decVal s = foldl (\<lambda>a c. 10 * a + digitVal c) 0 s"

fun fixedDigits :: "nat \<Rightarrow> nat \<Rightarrow> string" where
  "fixedDigits 0 k = []"
| "fixedDigits (Suc w) k = fixedDigits w (k div 10) @ [digit (k mod 10)]"

section \<open>Notification fabric\<close>

text \<open>
  Modelled from the spec: the listener type \<open>nl.NotifListener\<close> and its methods (the
  package \<open>nl\<close> is absent). By the spec a listener has a job id, a kind, the ids of its
  notifier targets, a stats blob and a finished flag per target, an aborted flag, an
  accumulated error and added/ended times; it is one of three variants (download, object
  query, generic xaction). It is finished when every notifier has reported finish or
  it is aborted.
\<close>

datatype nlVariant = NotifListenerQuery | NotifDownloadListerner | NotifXactListener

record NotifListener =
  nl_variant :: nlVariant
  nl_uuid :: string
  nl_kind :: string
  nl_srcs :: "string list"
  nl_finished :: "string set"
  nl_stats :: "string \<rightharpoonup> string"
  nl_aborted :: bool
  nl_err :: "string option"
  nl_added :: int
  nl_end :: int

definition MarkFinished :: "string \<Rightarrow> NotifListener \<Rightarrow> NotifListener" where
  "MarkFinished tsi l = l\<lparr>nl_finished := insert tsi (nl_finished l)\<rparr>"


definition AllFinished :: "NotifListener \<Rightarrow> bool" where
  "AllFinished l = (set (nl_srcs l) \<subseteq> nl_finished l)"


definition SetAborted :: "NotifListener \<Rightarrow> NotifListener" where
  "SetAborted l = l\<lparr>nl_aborted := True\<rparr>"

definition SetErr :: "string \<Rightarrow> NotifListener \<Rightarrow> NotifListener" where
  "SetErr e l = l\<lparr>nl_err := Some e\<rparr>"

definition SetStats :: "string \<Rightarrow> string \<Rightarrow> NotifListener \<Rightarrow> NotifListener" where
  "SetStats tid st l = l\<lparr>nl_stats := (nl_stats l)(tid \<mapsto> st)\<rparr>"

definition SetAddedTime :: "int \<Rightarrow> NotifListener \<Rightarrow> NotifListener" where
  "SetAddedTime now l = l\<lparr>nl_added := now\<rparr>"

definition Callback :: "int \<Rightarrow> NotifListener \<Rightarrow> NotifListener" where
  "Callback ts l = l\<lparr>nl_end := ts\<rparr>"

text \<open>
  A table \<open>listeners.m\<close> (\<open>map[string]nl.NotifListener\<close>) is an association list with
  distinct keys, in the order of a \<open>range\<close> loop. The Go tables hold pointers: a
  listener changed after it was looked up is the entry of the table it came from, so the
  model writes a changed listener back to that entry (\<open>writeBack\<close>).
\<close>

type_synonym listeners = "(string \<times> NotifListener) list"

definition hasKey :: "listeners \<Rightarrow> string \<Rightarrow> bool" where
  "hasKey l k = (k \<in> fst ` set l)"

definition delKey :: "string \<Rightarrow> listeners \<Rightarrow> listeners" where
  "delKey k l = filter (\<lambda>e. fst e \<noteq> k) l"

definition setKey :: "string \<Rightarrow> NotifListener \<Rightarrow> listeners \<Rightarrow> listeners" where
  "setKey k v l = map (\<lambda>e. if fst e = k then (k, v) else e) l"


definition l_add :: "listeners \<Rightarrow> NotifListener \<Rightarrow> listeners \<times> bool" where
  "l_add l x = (if hasKey l (nl_uuid x) then (l, True) else (l @ [(nl_uuid x, x)], False))"

definition l_del :: "listeners \<Rightarrow> NotifListener \<Rightarrow> listeners \<times> bool" where
  "l_del l x = (if hasKey l (nl_uuid x) then (delKey (nl_uuid x) l, True) else (l, False))"

definition mergeStep :: "int \<Rightarrow> listeners \<Rightarrow> NotifListener \<Rightarrow> listeners" where
  "mergeStep now l x =
     (if \<not> hasKey l (nl_uuid x) then l @ [(nl_uuid x, SetAddedTime now x)] else l)"

definition l_merge :: "int \<Rightarrow> listeners \<Rightarrow> NotifListener list \<Rightarrow> listeners" where
  "l_merge now l msgs = foldl (mergeStep now) l msgs"

text \<open>\<open>notifs\<close>: the running and the finished table, and the last cluster-map version.\<close>

record notifs =
  nls :: listeners
  fin :: listeners
  smapVer :: int

definition notifs_init :: notifs where
  "notifs_init = \<lparr>nls = [], fin = [], smapVer = 0\<rparr>"

definition writeBack :: "NotifListener \<Rightarrow> notifs \<Rightarrow> notifs" where
  "writeBack x nf =
     (if hasKey (nls nf) (nl_uuid x) then nf\<lparr>nls := setKey (nl_uuid x) x (nls nf)\<rparr>
      else nf\<lparr>fin := setKey (nl_uuid x) x (fin nf)\<rparr>)"


definition notifs_del :: "notifs \<Rightarrow> NotifListener \<Rightarrow> notifs \<times> bool" where
  "notifs_del nf x = (nf\<lparr>nls := fst (l_del (nls nf) x)\<rparr>, snd (l_del (nls nf) x))"


text \<open>
  \<open>markFinished\<close>: the changed listener and \<open>done\<close>. The text of the synthesized
  abort error is not modelled beyond its kind.
\<close>

definition markFinished ::
  "NotifListener \<Rightarrow> string \<Rightarrow> string option \<Rightarrow> bool \<Rightarrow> NotifListener \<times> bool" where
  "markFinished x tsi srcErr aborted =
     (let x1 = MarkFinished tsi x;
          x2 = (if aborted then SetAborted x1 else x1);
          srcErr' = (if aborted \<and> srcErr = None then Some (''aborted: '' @ nl_kind x) else srcErr);
          x3 = (case srcErr' of None \<Rightarrow> x2 | Some e \<Rightarrow> SetErr e x2)
      in (x3, AllFinished x3 \<or> aborted))"

text \<open>
  \<open>notifs.done\<close>: the listener leaves the running table and enters the finished one
  unless its id is already there; the broadcast of the abort goes to the network and
  leaves the tables alone; \<open>Callback\<close> then changes the listener, which is the entry of
  the finished table when it was inserted.
\<close>

definition notifs_done :: "int \<Rightarrow> notifs \<Rightarrow> NotifListener \<Rightarrow> notifs" where
  "notifs_done now nf x =
     (if \<not> snd (notifs_del nf x) then nf
      else
        let nf1 = fst (notifs_del nf x);
            inserted = \<not> snd (l_add (fin nf1) x);
            nf2 = nf1\<lparr>fin := fst (l_add (fin nf1) x)\<rparr>
        in if inserted then nf2\<lparr>fin := setKey (nl_uuid x) (Callback now x) (fin nf2)\<rparr> else nf2)"

text \<open>
  The result of \<open>nl.UnmarshalStats\<close> on the data of a message: the stats blob and the
  flags \<open>finished\<close> and \<open>aborted\<close>.
\<close>

record statsMsg =
  sm_stats :: string
  sm_finished :: bool
  sm_aborted :: bool








record bcastResult =
  res_si :: string
  res_err :: bool
  res_status :: int
  res_parsed :: "statsMsg option"

record syncEnv =
  se_required :: bool
  se_results :: "bcastResult list"

text \<open>
  One answer. In \<open>done = done || n.markFinished(...)\<close> the call is not made once
  \<open>done\<close> is true.
\<close>

definition syncStep ::
  "int \<Rightarrow> int \<Rightarrow> NotifListener \<times> bool \<Rightarrow> bcastResult \<Rightarrow> NotifListener \<times> bool" where
  "syncStep now progressInterval st res =
     (let x = fst st; dn = snd st in
      if \<not> res_err res then
        (case res_parsed res of
           None \<Rightarrow> st
         | Some d \<Rightarrow>
             let st1 = (if sm_finished d \<and> \<not> dn
                        then markFinished x (res_si res) None (sm_aborted d) else st)
             in (SetStats (res_si res) (sm_stats d) (fst st1), snd st1))
      else if res_status res = StatusNotFound then
        (if now - nl_added x < progressInterval then st
         else if dn then st
         else markFinished x (res_si res) (Some (''not found at '' @ res_si res)) True)
      else st)"

definition syncStats :: "int \<Rightarrow> int \<Rightarrow> notifs \<Rightarrow> NotifListener \<Rightarrow> syncEnv \<Rightarrow> notifs" where
  "syncStats now progressInterval nf x env =
     (if \<not> se_required env then nf
      else
        let st = foldl (syncStep now progressInterval) (x, False) (se_results env);
            nf1 = writeBack (fst st) nf
        in if snd st then notifs_done now nf1 (fst st) else nf1)"








text \<open>
  Serialization. \<open>jsoniter\<close> and the JSON form of the three listener types are outside
  the sources: in the functions of this file \<open>enc\<close> is \<open>jsoniter.Marshal\<close> of a
  listener and \<open>dec v\<close> is \<open>jsoniter.Unmarshal\<close> into an empty listener of the variant
  \<open>v\<close>, and \<open>nl_Marshal\<close> and \<open>nl_Unmarshal\<close> further down model the two from the
  spec; the bytes of the envelopes are the values they encode. The names of the kinds
  are constants declared elsewhere: the record \<open>kindNames\<close>.
\<close>

record 'raw jsonNL =
  js_Type :: string
  js_NL :: 'raw

record 'raw jsonNotifs =
  js_Running :: "'raw jsonNL list"
  js_Finished :: "'raw jsonNL list"

record kindNames =
  ActQueryObjects :: string
  DlTypeMulti :: string
  DlTypeCloud :: string
  DlTypeSingle :: string
  DlTypeRange :: string

definition isDLType :: "kindNames \<Rightarrow> string \<Rightarrow> bool" where
  "isDLType K t = (t = DlTypeMulti K \<or> t = DlTypeCloud K \<or> t = DlTypeSingle K \<or> t = DlTypeRange K)"

definition variantOf :: "kindNames \<Rightarrow> string \<Rightarrow> nlVariant" where
  "variantOf K t =
     (if t = ActQueryObjects K then NotifListenerQuery
      else if isDLType K t then NotifDownloadListerner
      else NotifXactListener)"

definition nlMsg_MarshalJSON :: "(NotifListener \<Rightarrow> 'raw) \<Rightarrow> NotifListener \<Rightarrow> 'raw jsonNL" where
  "nlMsg_MarshalJSON enc x = \<lparr>js_Type = nl_kind x, js_NL = enc x\<rparr>"

definition nlMsg_UnmarshalJSON ::
  "kindNames \<Rightarrow> (nlVariant \<Rightarrow> 'raw \<Rightarrow> NotifListener option) \<Rightarrow> 'raw jsonNL \<Rightarrow> NotifListener option" where
  "nlMsg_UnmarshalJSON K dec t = dec (variantOf K (js_Type t)) (js_NL t)"

definition MarshalJSON :: "(NotifListener \<Rightarrow> 'raw) \<Rightarrow> notifs \<Rightarrow> 'raw jsonNotifs" where
  "MarshalJSON enc nf =
     \<lparr>js_Running = map (\<lambda>e. nlMsg_MarshalJSON enc (snd e)) (nls nf),
      js_Finished = map (\<lambda>e. nlMsg_MarshalJSON enc (snd e)) (fin nf)\<rparr>"

fun unmarshalMsgs ::
  "kindNames \<Rightarrow> (nlVariant \<Rightarrow> 'raw \<Rightarrow> NotifListener option) \<Rightarrow> 'raw jsonNL list
     \<Rightarrow> NotifListener list option" where
  "unmarshalMsgs K dec [] = Some []"
| "unmarshalMsgs K dec (t # ts) =
     (case nlMsg_UnmarshalJSON K dec t of
        None \<Rightarrow> None
      | Some x \<Rightarrow> (case unmarshalMsgs K dec ts of None \<Rightarrow> None | Some xs \<Rightarrow> Some (x # xs)))"

text \<open>\<open>UnmarshalJSON\<close>: \<open>None\<close> is the error of \<open>jsoniter.Unmarshal\<close>.\<close>

definition UnmarshalJSON ::
  "kindNames \<Rightarrow> (nlVariant \<Rightarrow> 'raw \<Rightarrow> NotifListener option) \<Rightarrow> int \<Rightarrow> notifs \<Rightarrow> 'raw jsonNotifs
     \<Rightarrow> notifs option" where
  "UnmarshalJSON K dec now nf t =
     (case unmarshalMsgs K dec (js_Running t) of
        None \<Rightarrow> None
      | Some rs \<Rightarrow>
          (case unmarshalMsgs K dec (js_Finished t) of
             None \<Rightarrow> None
           | Some fs \<Rightarrow>
               let nf1 = (if length rs > 0 then nf\<lparr>nls := l_merge now (nls nf) rs\<rparr> else nf);
                   nf2 = (if length fs > 0 then nf1\<lparr>fin := l_merge now (fin nf1) fs\<rparr> else nf1)
               in Some nf2))"

text \<open>
  Modelled from the spec: the JSON form of a listener (\<open>jsoniter\<close> and the listener types
  of the package \<open>nl\<close> are absent). The spec serializes a listener with its attributes,
  tagged with its kind. \<open>nl_Marshal\<close> is the document that \<open>jsoniter.Marshal\<close> writes
  for a listener: an object with one member per attribute, the notifier targets each with
  their finished flag and stats blob; the completion callback is code and has no JSON
  form. \<open>nl_Unmarshal v\<close> is \<open>jsoniter.Unmarshal\<close> into an empty listener of the variant
  \<open>v\<close>: it reads the members back, an absent member or \<open>null\<close> leaves the zero value, and
  a member of another JSON type is an error (\<open>None\<close>). The names of the members are not
  in the sources, and nothing depends on them.
\<close>

datatype json =
    JNull
  | JBool bool
  | JNum int
  | JStr string
  | JArr "json list"
  | JObj "(string \<times> json) list"

definition jmember :: "(string \<times> json) list \<Rightarrow> string \<Rightarrow> json" where
  "jmember ms k = (case map_of ms k of None \<Rightarrow> JNull | Some v \<Rightarrow> v)"

fun asStr :: "json \<Rightarrow> string option" where
  "asStr (JStr s) = Some s"
| "asStr JNull = Some ''''"
| "asStr _ = None"

fun asBool :: "json \<Rightarrow> bool option" where
  "asBool (JBool b) = Some b"
| "asBool JNull = Some False"
| "asBool _ = None"

fun asNum :: "json \<Rightarrow> int option" where
  "asNum (JNum n) = Some n"
| "asNum JNull = Some 0"
| "asNum _ = None"

fun asOptStr :: "json \<Rightarrow> string option option" where
  "asOptStr (JStr s) = Some (Some s)"
| "asOptStr JNull = Some None"
| "asOptStr _ = None"

definition optStrJSON :: "string option \<Rightarrow> json" where
  "optStrJSON s = (case s of None \<Rightarrow> JNull | Some v \<Rightarrow> JStr v)"

definition notifierJSON :: "NotifListener \<Rightarrow> string \<Rightarrow> json" where
  "notifierJSON x i =
     JObj [(''id'', JStr i), (''finished'', JBool (i \<in> nl_finished x)),
           (''stats'', optStrJSON (nl_stats x i))]"

definition nl_Marshal :: "NotifListener \<Rightarrow> json" where
  "nl_Marshal x =
     JObj [(''uuid'', JStr (nl_uuid x)), (''kind'', JStr (nl_kind x)),
           (''notifiers'', JArr (map (notifierJSON x) (nl_srcs x))),
           (''aborted'', JBool (nl_aborted x)), (''err'', optStrJSON (nl_err x)),
           (''added'', JNum (nl_added x)), (''ended'', JNum (nl_end x))]"

fun asNotifier :: "json \<Rightarrow> (string \<times> bool \<times> string option) option" where
  "asNotifier (JObj ms) =
     Option.bind (asStr (jmember ms ''id'')) (\<lambda>i.
     Option.bind (asBool (jmember ms ''finished'')) (\<lambda>f.
     Option.bind (asOptStr (jmember ms ''stats'')) (\<lambda>s. Some (i, f, s))))"
| "asNotifier _ = None"

fun asNotifiers :: "json \<Rightarrow> (string \<times> bool \<times> string option) list option" where
  "asNotifiers (JArr js) = those (map asNotifier js)"
| "asNotifiers JNull = Some []"
| "asNotifiers _ = None"

fun nl_Unmarshal :: "nlVariant \<Rightarrow> json \<Rightarrow> NotifListener option" where
  "nl_Unmarshal v (JObj ms) =
     Option.bind (asStr (jmember ms ''uuid'')) (\<lambda>u.
     Option.bind (asStr (jmember ms ''kind'')) (\<lambda>k.
     Option.bind (asNotifiers (jmember ms ''notifiers'')) (\<lambda>ns.
     Option.bind (asBool (jmember ms ''aborted'')) (\<lambda>a.
     Option.bind (asOptStr (jmember ms ''err'')) (\<lambda>e.
     Option.bind (asNum (jmember ms ''added'')) (\<lambda>ad.
     Option.bind (asNum (jmember ms ''ended'')) (\<lambda>en.
       Some \<lparr>nl_variant = v, nl_uuid = u, nl_kind = k, nl_srcs = map fst ns,
             nl_finished = set (map fst (filter (\<lambda>n. fst (snd n)) ns)),
             nl_stats = (\<lambda>i. Option.bind (map_of ns i) snd),
             nl_aborted = a, nl_err = e, nl_added = ad, nl_end = en\<rparr>)))))))"
| "nl_Unmarshal v _ = None"

text \<open>The uuids of a table, and the invariants of the two tables.\<close>

definition uuids :: "listeners \<Rightarrow> string set" where
  "uuids l = fst ` set l"



definition keyedByUuid :: "listeners \<Rightarrow> bool" where
  "keyedByUuid l = (distinct (map fst l) \<and> list_all (\<lambda>e. nl_uuid (snd e) = fst e) l)"

text \<open>A listener, a state with one running and one finished listener, a request and a
  cluster map, for concrete evaluation.\<close>

definition demoNL :: "string \<Rightarrow> NotifListener" where
  "demoNL u =
     \<lparr>nl_variant = NotifXactListener, nl_uuid = u, nl_kind = ''rebalance'',
      nl_srcs = [''t1'', ''t2''], nl_finished = {}, nl_stats = Map.empty,
      nl_aborted = False, nl_err = None, nl_added = 0, nl_end = 0\<rparr>"

definition nfRun :: notifs where
  "nfRun = \<lparr>nls = [(''u1'', demoNL ''u1'')], fin = [(''u2'', demoNL ''u2'')], smapVer = 1\<rparr>"



definition demoKinds :: kindNames where
  "demoKinds =
     \<lparr>ActQueryObjects = ''query'', DlTypeMulti = ''multi'', DlTypeCloud = ''cloud'',
      DlTypeSingle = ''single'', DlTypeRange = ''range''\<rparr>"

text \<open>
  The listener a receiver reconstructs from a listener \<open>x\<close> that went through the
  envelope: the tag is the kind of \<open>x\<close>, and it selects the variant decoded into.
\<close>

definition decoded ::
  "kindNames \<Rightarrow> (nlVariant \<Rightarrow> 'raw \<Rightarrow> NotifListener option) \<Rightarrow> (NotifListener \<Rightarrow> 'raw)
     \<Rightarrow> NotifListener \<Rightarrow> NotifListener option" where
  "decoded K dec enc x = nlMsg_UnmarshalJSON K dec (nlMsg_MarshalJSON enc x)"

text \<open>
  A codec of the listener types keeps the uuid and the kind when a listener decodes, into
  whatever variant, to a listener of that variant with the same uuid and the same kind.
\<close>

definition codecKeeps ::
  "(nlVariant \<Rightarrow> 'raw \<Rightarrow> NotifListener option) \<Rightarrow> (NotifListener \<Rightarrow> 'raw) \<Rightarrow> bool" where
  "codecKeeps dec enc =
     (\<forall>x v. \<exists>y. dec v (enc x) = Some y \<and> nl_uuid y = nl_uuid x \<and> nl_kind y = nl_kind x \<and>
                nl_variant y = v)"

text \<open>The content of a table after a merge, by uuid.\<close>

definition mergedEntry ::
  "int \<Rightarrow> listeners \<Rightarrow> (NotifListener \<Rightarrow> NotifListener option) \<Rightarrow> listeners \<Rightarrow> string
     \<Rightarrow> NotifListener option" where
  "mergedEntry now mine f incoming u =
     (case map_of mine u of
        Some e \<Rightarrow> Some e
      | None \<Rightarrow> (case map_of incoming u of
                   None \<Rightarrow> None
                 | Some x \<Rightarrow> map_option (SetAddedTime now) (f x)))"


definition nfMixed :: notifs where
  "nfMixed =
     \<lparr>nls = [(''u1'', demoNL ''u1'')],
      fin = [(''u2'', (demoNL ''u2'')\<lparr>nl_variant := NotifDownloadListerner, nl_kind := ''single''\<rparr>)],
      smapVer = 1\<rparr>"




section \<open>Proofs: broadcast of admin requests\<close>


lemma classifyStep_upto:
  assumes k: "k < length rs"
  shows "classifyStep (classifiedUpto rs k) k = classifiedUpto rs (Suc k)"
proof -
  let ?A = "filter isValid (take k rs)"
  have nv: "length ?A \<le> k"
    using k by (metis length_filter_le length_take min.absorb2 less_imp_le_nat)
  have rd: "arr (classifiedUpto rs k) ! k = rs ! k"
    using nv k by (simp add: classifiedUpto_def nth_append)
  have upd: "(?A @ drop (length ?A) rs)[length ?A := rs ! k] = (?A @ [rs ! k]) @ drop (Suc (length ?A)) rs"
    using nv k by (simp add: list_update_append upd_conv_take_nth_drop)
  have tk: "take (Suc k) rs = take k rs @ [rs ! k]"
    using k by (simp add: take_Suc_conv_app_nth)
  consider (v) "isValid (rs ! k)" | (nf) "isNotFound (rs ! k)" | (oe) "isOtherError (rs ! k)"
    by (auto simp: isValid_def isNotFound_def isOtherError_def)
  then show ?thesis
  proof cases
    case v
    then have "\<not> isNotFound (rs ! k)" "\<not> isOtherError (rs ! k)" "\<not> statusCode (rs ! k) \<ge> StatusBadRequest"
      by (auto simp: isValid_def isNotFound_def isOtherError_def)
    then show ?thesis using v rd upd
      by (simp add: classifyStep_def Let_def tk) (simp add: classifiedUpto_def tk)
  next
    case nf
    then have "\<not> isValid (rs ! k)" "\<not> isOtherError (rs ! k)" "statusCode (rs ! k) \<ge> StatusBadRequest"
        "statusCode (rs ! k) = StatusNotFound"
      by (auto simp: isValid_def isNotFound_def isOtherError_def)
    then show ?thesis using nf rd
      by (simp add: classifyStep_def Let_def tk) (simp add: classifiedUpto_def tk)
  next
    case oe
    then have "\<not> isValid (rs ! k)" "\<not> isNotFound (rs ! k)" "statusCode (rs ! k) \<ge> StatusBadRequest"
        "statusCode (rs ! k) \<noteq> StatusNotFound"
      by (auto simp: isValid_def isNotFound_def isOtherError_def)
    then show ?thesis using oe rd
      by (simp add: classifyStep_def Let_def tk) (simp add: classifiedUpto_def tk)
  qed
qed

lemma classify_prefix:
  "k \<le> length rs \<Longrightarrow>
   foldl classifyStep \<lparr>arr = rs, nvalid = 0, notFoundCnt = 0, errors = []\<rparr> [0 ..< k] = classifiedUpto rs k"
proof (induction k)
  case 0
  then show ?case by (simp add: classifiedUpto_def)
next
  case (Suc k)
  then show ?case by (simp add: classifyStep_upto)
qed

lemma classify_eq: "classify rs = classifiedUpto rs (length rs)"
  by (simp add: classify_def classify_prefix)

lemma unmarshalAll_Inr:
  "map (\<lambda>r. u (body r)) rs = map Some stats \<Longrightarrow> unmarshalAll u rs = Inr stats"
proof (induction rs arbitrary: stats)
  case Nil
  then show ?case by simp
next
  case (Cons r rs)
  then obtain s ss where st: "stats = s # ss" by (cases stats) auto
  with Cons.prems have "u (body r) = Some s" "map (\<lambda>r. u (body r)) rs = map Some ss" by auto
  with Cons.IH[of ss] st show ?case by simp
qed

lemma aggregate_empty: "aggregate u sp m [] = Inl IndexOutOfRange"
  by (simp add: aggregate_def classify_def)

lemma all404_filters:
  assumes "\<forall>r\<in>set rs. statusCode r = StatusNotFound"
  shows "filter isValid rs = []" "filter isNotFound rs = rs"
  using assms by (auto simp: isValid_def isNotFound_def StatusNotFound_def StatusBadRequest_def filter_empty_conv filter_id_conv)

lemma aggregate_all404:
  assumes "rs \<noteq> []" "\<forall>r\<in>set rs. statusCode r = StatusNotFound"
  shows "aggregate u sp m rs = Inr ('''', err (hd rs))"
  using assms all404_filters[OF assms(2)]
  by (cases rs) (simp_all add: aggregate_def classify_eq classifiedUpto_def Let_def)

lemma not_all404_cnt:
  assumes "r \<in> set rs" "statusCode r \<noteq> StatusNotFound"
  shows "length (filter isNotFound rs) \<noteq> length rs"
proof -
  have "\<not> isNotFound r" using assms by (simp add: isNotFound_def)
  then have "length (filter isNotFound rs) < length rs"
    using assms(1) by (metis length_filter_less)
  then show ?thesis by simp
qed

lemma length_arr_upto: "length (arr (classifiedUpto rs (length rs))) = length rs"
proof -
  have "length (filter isValid rs) \<le> length rs" by simp
  then show ?thesis by (simp add: classifiedUpto_def)
qed

lemma find_filter_hd: "find P rs = Some e \<Longrightarrow> \<exists>es. filter P rs = e # es"
  by (induction rs) (auto split: if_splits)

lemma aggregate_other_error:
  assumes "r \<in> set rs" "statusCode r \<noteq> StatusNotFound" "find isOtherError rs = Some e"
  shows "aggregate u sp m rs = Inr ('''', err e)"
proof -
  obtain es where es: "filter isOtherError rs = e # es" using find_filter_hd[OF assms(3)] by auto
  show ?thesis
    using not_all404_cnt[OF assms(1,2)] es
    by (simp add: aggregate_def classify_eq Let_def length_arr_upto) (simp add: classifiedUpto_def)
qed

lemma find_None_filter: "find P rs = None \<Longrightarrow> filter P rs = []"
  by (induction rs) (auto split: if_splits)

lemma valid_exists:
  assumes "r \<in> set rs" "statusCode r \<noteq> StatusNotFound" "find isOtherError rs = None"
  shows "isValid r"
proof -
  have "\<not> isOtherError r"
    using assms(1) find_None_filter[OF assms(3)] by (auto simp: filter_empty_conv)
  then show ?thesis using assms(2) by (auto simp: isOtherError_def isValid_def)
qed

lemma aggregate_valid:
  assumes "r \<in> set rs" "statusCode r \<noteq> StatusNotFound" "find isOtherError rs = None"
  shows "aggregate u sp m rs = respond u sp m (filter isValid rs)"
proof -
  have v: "isValid r" by (rule valid_exists[OF assms])
  then have "filter isValid rs \<noteq> []" using assms(1) by (auto simp: filter_empty_conv)
  then obtain v vs where vs: "filter isValid rs = v # vs" by (cases "filter isValid rs") auto
  have e: "filter isOtherError rs = []" by (rule find_None_filter[OF assms(3)])
  have "aggregate u sp m rs =
     (let st = classifiedUpto rs (length rs) in
      if m = MethodGet then
        (case unmarshalAll u (take (nvalid st) (arr st)) of
           Inl p \<Rightarrow> Inl p
         | Inr stats \<Rightarrow>
             Inr (sp (sum_list (map Finished stats)) (sum_list (map Total stats)), None))
      else if m = MethodDelete then
        (case arr st of [] \<Rightarrow> Inl IndexOutOfRange | r # _ \<Rightarrow> Inr (body r, None))
      else Inl AssertFailed)"
    using not_all404_cnt[OF assms(1,2)] e
    by (simp add: aggregate_def classify_eq Let_def length_arr_upto) (simp add: classifiedUpto_def)
  also have "\<dots> = respond u sp m (filter isValid rs)"
    using vs by (simp add: respond_def classifiedUpto_def Let_def)
  finally show ?thesis .
qed

lemma filter_valid_idem: "filter isValid (filter isValid rs) = filter isValid rs"
  by simp

lemma aggregate_ignores_404:
  assumes "r \<in> set rs" "statusCode r \<noteq> StatusNotFound" "find isOtherError rs = None"
  shows "aggregate u sp m rs = aggregate u sp m (filter (\<lambda>r. statusCode r \<noteq> StatusNotFound) rs)"
proof -
  let ?rs = "filter (\<lambda>r. statusCode r \<noteq> StatusNotFound) rs"
  have e: "filter isOtherError rs = []" by (rule find_None_filter[OF assms(3)])
  have "\<forall>x\<in>set rs. (statusCode x \<noteq> StatusNotFound) = isValid x"
    using e by (auto simp: filter_empty_conv isOtherError_def isValid_def StatusNotFound_def StatusBadRequest_def)
  then have eq: "?rs = filter isValid rs" by (auto intro: filter_cong)
  have r: "r \<in> set ?rs" using assms by simp
  have "find isOtherError ?rs = None"
    using e unfolding eq by (auto simp: find_None_iff filter_empty_conv)
  from aggregate_valid[OF r assms(2) this] aggregate_valid[OF assms]
  show ?thesis unfolding eq by simp
qed

lemma unmarshalAll_panic: "unmarshalAll u rs = Inl p \<Longrightarrow> p = AssertFailed"
  by (induction rs arbitrary: p) (auto split: option.splits sum.splits)

lemma aggregate_nonempty_no_index_panic:
  assumes "rs \<noteq> []"
  shows "aggregate u sp m rs \<noteq> Inl IndexOutOfRange"
proof -
  let ?st = "classifiedUpto rs (length rs)"
  have "length (arr ?st) = length rs" by (rule length_arr_upto)
  then obtain a as where a: "arr ?st = a # as" using assms by (cases "arr ?st") auto
  have u: "unmarshalAll u (take (nvalid ?st) (arr ?st)) \<noteq> Inl IndexOutOfRange"
    using unmarshalAll_panic by fastforce
  show ?thesis
  proof (cases "errors ?st")
    case Nil
    then show ?thesis using a u
      by (auto simp add: aggregate_def classify_eq Let_def split: sum.splits)
  next
    case (Cons e es)
    then show ?thesis using a u
      by (auto simp add: aggregate_def classify_eq Let_def split: sum.splits)
  qed
qed

text \<open>
  C10. \<open>broadcastDownloadRequest\<close> indexes out of range exactly when the cluster map
  has no target: with no reply, \<open>notFoundCnt == len(responses)\<close> is \<open>0 == 0\<close> and
  \<open>responses[0]\<close> is read from an empty slice; with at least one target no index is
  out of range.
\<close>

theorem broadcastDownloadRequest_index_panic:
  "(broadcastDownloadRequest unmarshal sprintf call method tmap = Inl IndexOutOfRange) = (tmap = [])"
proof (cases "tmap = []")
  case True
  then show ?thesis by (simp add: broadcastDownloadRequest_def aggregate_empty)
next
  case False
  then have "map (\<lambda>(_, si). call si) tmap \<noteq> []" by simp
  from aggregate_nonempty_no_index_panic[OF this] False
  show ?thesis by (simp add: broadcastDownloadRequest_def)
qed

text \<open>
  C5. For the replies of the targets, in the order in which they are read: if there is a
  reply and every reply is a 404, the error of the first reply is returned; if some reply
  is not a 404 and some reply has a status of at least 400 other than 404, the error of the
  first such reply is returned; otherwise the result is that of the replies without the
  404 ones, and it is a success: for DELETE the body of the first valid reply, for GET the
  status line of the summed counters once the valid bodies decode.
\<close>

theorem broadcastDownloadRequest_aggregates_replies:
  assumes "responses = map (\<lambda>(_, si). call si) tmap"
    and "result = broadcastDownloadRequest unmarshal sprintf call method tmap"
  shows
   "(responses \<noteq> [] \<and> (\<forall>r\<in>set responses. statusCode r = StatusNotFound)
        \<longrightarrow> result = Inr ('''', err (hd responses))) \<and>
    ((\<exists>r\<in>set responses. statusCode r \<noteq> StatusNotFound) \<longrightarrow>
       (\<forall>e. find isOtherError responses = Some e \<longrightarrow> result = Inr ('''', err e)) \<and>
       (find isOtherError responses = None \<longrightarrow>
          result = aggregate unmarshal sprintf method
                     (filter (\<lambda>r. statusCode r \<noteq> StatusNotFound) responses) \<and>
          (method = MethodDelete \<longrightarrow>
             result = Inr (body (hd (filter isValid responses)), None)) \<and>
          (method = MethodGet \<longrightarrow>
             (map (\<lambda>r. unmarshal (body r)) (filter isValid responses) = map Some stats
                \<longrightarrow> result = Inr (sprintf (sum_list (map Finished stats))
                                         (sum_list (map Total stats)), None)))))"
proof -
  have res: "result = aggregate unmarshal sprintf method responses"
    using assms by (simp add: broadcastDownloadRequest_def)
  have A: "responses \<noteq> [] \<and> (\<forall>r\<in>set responses. statusCode r = StatusNotFound)
        \<longrightarrow> result = Inr ('''', err (hd responses))"
    using aggregate_all404 res by blast
  have B: "\<And>r e. r \<in> set responses \<Longrightarrow> statusCode r \<noteq> StatusNotFound \<Longrightarrow>
      find isOtherError responses = Some e \<Longrightarrow> result = Inr ('''', err e)"
    using aggregate_other_error res by blast
  have C1: "\<And>r. r \<in> set responses \<Longrightarrow> statusCode r \<noteq> StatusNotFound \<Longrightarrow>
      find isOtherError responses = None \<Longrightarrow>
      result = aggregate unmarshal sprintf method
                     (filter (\<lambda>r. statusCode r \<noteq> StatusNotFound) responses)"
    using aggregate_ignores_404 res by blast
  have C0: "\<And>r. r \<in> set responses \<Longrightarrow> statusCode r \<noteq> StatusNotFound \<Longrightarrow>
      find isOtherError responses = None \<Longrightarrow>
      result = respond unmarshal sprintf method (filter isValid responses)"
    using aggregate_valid res by blast
  have C2: "\<And>r. r \<in> set responses \<Longrightarrow> statusCode r \<noteq> StatusNotFound \<Longrightarrow>
      find isOtherError responses = None \<Longrightarrow> method = MethodDelete \<Longrightarrow>
      result = Inr (body (hd (filter isValid responses)), None)"
    using C0 by (simp add: respond_def MethodGet_def MethodDelete_def)
  have C3: "\<And>r. r \<in> set responses \<Longrightarrow> statusCode r \<noteq> StatusNotFound \<Longrightarrow>
      find isOtherError responses = None \<Longrightarrow> method = MethodGet \<Longrightarrow>
      map (\<lambda>r. unmarshal (body r)) (filter isValid responses) = map Some stats \<Longrightarrow>
      result = Inr (sprintf (sum_list (map Finished stats)) (sum_list (map Total stats)), None)"
    using C0 unmarshalAll_Inr by (simp add: respond_def)
  show ?thesis using A B C1 C2 C3 by blast
qed

text \<open>The four branches of C5 on concrete replies.\<close>

theorem broadcastDownloadRequest_aggregates_replies_witness:
  "broadcastDownloadRequest (\<lambda>_. None) (\<lambda>_ _. []) demoReply MethodDelete
      [(''t1'', demoNode ''t1''), (''t4'', demoNode ''t4'')] = Inr ('''', Some ''e1'') \<and>
   broadcastDownloadRequest (\<lambda>_. None) (\<lambda>_ _. []) demoReply MethodDelete
      [(''t1'', demoNode ''t1''), (''t2'', demoNode ''t2''), (''t3'', demoNode ''t3'')] = Inr ('''', Some ''e3'') \<and>
   broadcastDownloadRequest (\<lambda>_. None) (\<lambda>_ _. []) demoReply MethodDelete
      [(''t1'', demoNode ''t1''), (''t2'', demoNode ''t2'')] = Inr (''b2'', None) \<and>
   broadcastDownloadRequest (\<lambda>_. Some \<lparr>Finished = 1, Total = 2\<rparr>) (\<lambda>f t. if f = 1 \<and> t = 2 then ''ok'' else '''') demoReply MethodGet
      [(''t1'', demoNode ''t1''), (''t2'', demoNode ''t2'')] = Inr (''ok'', None)"
proof -
  have 1: "broadcastDownloadRequest (\<lambda>_. None) (\<lambda>_ _. []) demoReply MethodDelete
      [(''t1'', demoNode ''t1''), (''t4'', demoNode ''t4'')] = Inr ('''', Some ''e1'')"
    using broadcastDownloadRequest_aggregates_replies[OF refl refl,
        of demoReply "[(''t1'', demoNode ''t1''), (''t4'', demoNode ''t4'')]" "\<lambda>_. None" "\<lambda>_ _. []" MethodDelete]
    by (simp add: demoReply_def demoNode_def StatusNotFound_def)
  have 2: "broadcastDownloadRequest (\<lambda>_. None) (\<lambda>_ _. []) demoReply MethodDelete
      [(''t1'', demoNode ''t1''), (''t2'', demoNode ''t2''), (''t3'', demoNode ''t3'')] = Inr ('''', Some ''e3'')"
    using broadcastDownloadRequest_aggregates_replies[OF refl refl,
        of demoReply "[(''t1'', demoNode ''t1''), (''t2'', demoNode ''t2''), (''t3'', demoNode ''t3'')]" "\<lambda>_. None" "\<lambda>_ _. []" MethodDelete]
    by (simp add: demoReply_def demoNode_def StatusNotFound_def isOtherError_def StatusBadRequest_def)
  have 3: "broadcastDownloadRequest (\<lambda>_. None) (\<lambda>_ _. []) demoReply MethodDelete
      [(''t1'', demoNode ''t1''), (''t2'', demoNode ''t2'')] = Inr (''b2'', None)"
    using broadcastDownloadRequest_aggregates_replies[OF refl refl,
        of demoReply "[(''t1'', demoNode ''t1''), (''t2'', demoNode ''t2'')]" "\<lambda>_. None" "\<lambda>_ _. []" MethodDelete]
    by (simp (no_asm_use) add: demoReply_def demoNode_def StatusNotFound_def isOtherError_def isValid_def StatusBadRequest_def MethodGet_def MethodDelete_def) blast
  have 4: "broadcastDownloadRequest (\<lambda>_. Some \<lparr>Finished = 1, Total = 2\<rparr>) (\<lambda>f t. if f = 1 \<and> t = 2 then ''ok'' else '''') demoReply MethodGet
      [(''t1'', demoNode ''t1''), (''t2'', demoNode ''t2'')] = Inr (''ok'', None)"
    using broadcastDownloadRequest_aggregates_replies[OF refl refl,
        of demoReply "[(''t1'', demoNode ''t1''), (''t2'', demoNode ''t2'')]" "\<lambda>_. Some \<lparr>Finished = 1, Total = 2\<rparr>"
           "\<lambda>f t. if f = 1 \<and> t = 2 then ''ok'' else ''''" MethodGet "[\<lparr>Finished = 1, Total = 2\<rparr>]"]
    by (simp (no_asm_use) add: demoReply_def demoNode_def StatusNotFound_def isOtherError_def isValid_def StatusBadRequest_def MethodGet_def MethodDelete_def) blast
  show ?thesis using 1 2 3 4 by blast
qed

section \<open>Proofs: placement engine\<close>

lemma length_ins: "length (ins x E) = Suc (length E)"
  by (induction E) auto

lemma set_ins: "set (ins x E) = insert x (set E)"
  by (induction E) auto

lemma ins_snoc_small: "fst y < fst x \<Longrightarrow> ins x (A @ [y]) = ins x A @ [y]"
  by (induction A) auto

lemma ins_all_ge: "\<forall>a\<in>set A. fst x \<le> fst a \<Longrightarrow> ins x A = A @ [x]"
  by (induction A) (auto simp: not_less)

lemma descending_ins: "descending E \<Longrightarrow> descending (ins x E)"
  unfolding descending_def
  by (induction E) (auto simp: set_ins not_less intro: order_trans less_imp_le)

lemma descending_snoc:
  "descending (A @ [y]) = (descending A \<and> (\<forall>a\<in>set A. fst y \<le> fst a))"
  unfolding descending_def by (auto simp: sorted_wrt_append)

lemma bubble_ins:
  assumes "hs hl = map fst (A @ x # B)" "sis hl = map snd (A @ x # B)" "descending A"
  shows "bubble (length A) hl =
           Inr (hl\<lparr>hs := map fst (ins x A @ B), sis := map snd (ins x A @ B)\<rparr>)"
  using assms
proof (induction A arbitrary: hl B rule: rev_induct)
  case Nil
  then show ?case by simp
next
  case (snoc y A)
  have d: "descending A" and ge: "\<forall>a\<in>set A. fst y \<le> fst a"
    using snoc.prems(3) by (simp_all add: descending_snoc)
  have len: "Suc (length A) < length (hs hl)" "Suc (length A) < length (sis hl)"
    using snoc.prems by simp_all
  have hi: "hs hl ! length A = fst y" "hs hl ! Suc (length A) = fst x"
       "sis hl ! length A = snd y" "sis hl ! Suc (length A) = snd x"
    using snoc.prems(1,2) by (simp_all add: nth_append)
  show ?case
  proof (cases "fst y < fst x")
    case True
    let ?hl = "hl\<lparr>hs := (hs hl)[Suc (length A) := hs hl ! length A, length A := hs hl ! Suc (length A)],
                   sis := (sis hl)[Suc (length A) := sis hl ! length A, length A := sis hl ! Suc (length A)]\<rparr>"
    have h1: "hs ?hl = map fst (A @ x # (y # B))"
      using snoc.prems(1) hi by (simp add: list_update_append)
    have h2: "sis ?hl = map snd (A @ x # (y # B))"
      using snoc.prems(2) hi by (simp add: list_update_append)
    have "bubble (length (A @ [y])) hl = bubble (length A) ?hl"
      using True len hi by simp
    also have "\<dots> = Inr (?hl\<lparr>hs := map fst (ins x A @ y # B), sis := map snd (ins x A @ y # B)\<rparr>)"
      by (rule snoc.IH[OF h1 h2 d])
    finally show ?thesis using True by (simp add: ins_snoc_small)
  next
    case False
    then have "fst x \<le> fst y" by simp
    then have "\<forall>a\<in>set (A @ [y]). fst x \<le> fst a" using ge by auto
    then have i: "ins x (A @ [y]) = (A @ [y]) @ [x]" by (rule ins_all_ge)
    have "bubble (length (A @ [y])) hl = Inr hl" using False len hi by simp
    moreover have "hl\<lparr>hs := map fst (ins x (A @ [y]) @ B), sis := map snd (ins x (A @ [y]) @ B)\<rparr> = hl"
      using snoc.prems(1,2) unfolding i by simp
    ultimately show ?thesis by simp
  qed
qed

lemma take_ins: "take k (ins x (take k F)) = take k (ins x F)"
proof (induction F arbitrary: k)
  case Nil
  then show ?case by simp
next
  case (Cons y ys)
  show ?case
  proof (cases k)
    case 0
    then show ?thesis by simp
  next
    case (Suc k')
    show ?thesis
    proof (cases "fst y < fst x")
      case True
      then show ?thesis using Suc by (cases k') simp_all
    next
      case False
      then show ?thesis using Suc Cons.IH[of k'] by simp
    qed
  qed
qed

lemma descending_take: "descending F \<Longrightarrow> descending (take k F)"
  unfolding descending_def by (rule sorted_wrt_take)

lemma hl_same: "hs hl = a \<Longrightarrow> sis hl = b \<Longrightarrow> hl\<lparr>hs := a, sis := b\<rparr> = hl"
  by simp

lemma add_ins:
  assumes h: "hs hl = map fst E" and s: "sis hl = map snd E" and d: "descending E"
    and le: "int (length E) \<le> hl_n hl" and n1: "1 \<le> hl_n hl"
  shows "add w si hl =
           Inr (hl\<lparr>hs := map fst (take (nat (hl_n hl)) (ins (w, si) E)),
                    sis := map snd (take (nat (hl_n hl)) (ins (w, si) E))\<rparr>)"
proof (cases "int (length E) = hl_n hl")
  case True
  then have "E \<noteq> []" using n1 by auto
  then obtain A y where E: "E = A @ [y]" by (metis rev_exhaust)
  have nl: "nat (hl_n hl) = Suc (length A)" using True E by simp
  have dA: "descending A" and ge: "\<forall>a\<in>set A. fst y \<le> fst a"
    using d E by (simp_all add: descending_snoc)
  have l: "length (sis hl) = Suc (length A)" "length (hs hl) = Suc (length A)"
    using h s E by simp_all
  have last: "hs hl ! length A = fst y" using h E by (simp add: nth_append)
  show ?thesis
  proof (cases "w \<le> fst y")
    case True
    then have "\<forall>a\<in>set E. fst (w, si) \<le> fst a" using ge E by auto
    then have "ins (w, si) E = E @ [(w, si)]" by (rule ins_all_ge)
    then have t: "take (nat (hl_n hl)) (ins (w, si) E) = E" using nl E by simp
    have "add w si hl = Inr hl"
      using True \<open>int (length E) = hl_n hl\<close> l last E by (simp add: add_def Let_def)
    then show ?thesis unfolding t using h s by simp
  next
    case False
    then have lt: "fst y < fst (w, si)" by simp
    let ?hl = "hl\<lparr>hs := (hs hl)[length A := w], sis := (sis hl)[length A := si]\<rparr>"
    have h1: "hs ?hl = map fst (A @ (w, si) # [])" using h E by (simp add: list_update_append)
    have h2: "sis ?hl = map snd (A @ (w, si) # [])" using s E by (simp add: list_update_append)
    have "add w si hl = bubble (length A) ?hl"
      using False \<open>int (length E) = hl_n hl\<close> l last E by (simp add: add_def Let_def)
    also have "\<dots> = Inr (?hl\<lparr>hs := map fst (ins (w, si) A @ []), sis := map snd (ins (w, si) A @ [])\<rparr>)"
      by (rule bubble_ins[OF h1 h2 dA])
    finally have a: "add w si hl = Inr (hl\<lparr>hs := map fst (ins (w, si) A), sis := map snd (ins (w, si) A)\<rparr>)"
      by simp
    have "take (nat (hl_n hl)) (ins (w, si) E) = ins (w, si) A"
      unfolding E ins_snoc_small[OF lt] nl by (simp add: length_ins)
    then show ?thesis using a by simp
  qed
next
  case False
  then have lt: "int (length E) < hl_n hl" using le by simp
  let ?hl = "hl\<lparr>hs := hs hl @ [w], sis := sis hl @ [si]\<rparr>"
  have h1: "hs ?hl = map fst (E @ (w, si) # [])" using h by simp
  have h2: "sis ?hl = map snd (E @ (w, si) # [])" using s by simp
  have "add w si hl = bubble (length E) ?hl"
    using False s by (simp add: add_def Let_def)
  also have "\<dots> = Inr (?hl\<lparr>hs := map fst (ins (w, si) E @ []), sis := map snd (ins (w, si) E @ [])\<rparr>)"
    by (rule bubble_ins[OF h1 h2 d])
  finally have a: "add w si hl = Inr (hl\<lparr>hs := map fst (ins (w, si) E), sis := map snd (ins (w, si) E)\<rparr>)"
    by simp
  have "length (ins (w, si) E) \<le> nat (hl_n hl)" using lt by (simp add: length_ins)
  then have "take (nat (hl_n hl)) (ins (w, si) E) = ins (w, si) E" by simp
  then show ?thesis using a by simp
qed

lemma descending_foldl_ins: "descending F \<Longrightarrow> descending (foldl (\<lambda>E x. ins x E) F xs)"
  by (induction xs arbitrary: F) (simp_all add: descending_ins)

lemma descending_Nil: "descending []"
  by (simp add: descending_def)

lemma descending_isort: "descending (isort xs)"
  unfolding isort_def by (rule descending_foldl_ins[OF descending_Nil])

lemma length_foldl_ins: "length (foldl (\<lambda>E x. ins x E) F xs) = length F + length xs"
  by (induction xs arbitrary: F) (simp_all add: length_ins)

lemma set_foldl_ins: "set (foldl (\<lambda>E x. ins x E) F xs) = set F \<union> set xs"
  by (induction xs arbitrary: F) (simp_all add: set_ins)

lemma length_isort: "length (isort xs) = length xs"
  by (simp add: isort_def length_foldl_ins)

lemma set_isort: "set (isort xs) = set xs"
  by (simp add: isort_def set_foldl_ins)

lemma scored_Cons:
  "scored mix d (e # rest) =
     (if InMaintOrDecomm (snd e) then scored mix d rest
      else (hrwScore mix d (snd e), snd e) # scored mix d rest)"
  by (simp add: scored_def eligible_def)

lemma addAll_ins:
  assumes "hs hl = map fst (take (nat (hl_n hl)) F)" "sis hl = map snd (take (nat (hl_n hl)) F)"
    "descending F" "1 \<le> hl_n hl"
  shows "addAll mix d tmap hl =
     Inr (hl\<lparr>hs := map fst (take (nat (hl_n hl)) (foldl (\<lambda>E x. ins x E) F (scored mix d tmap))),
              sis := map snd (take (nat (hl_n hl)) (foldl (\<lambda>E x. ins x E) F (scored mix d tmap)))\<rparr>)"
  using assms
proof (induction tmap arbitrary: hl F)
  case Nil
  then show ?case by (simp add: scored_def eligible_def)
next
  case (Cons e rest)
  show ?case
  proof (cases "InMaintOrDecomm (snd e)")
    case True
    then show ?thesis using Cons.IH[OF Cons.prems] by (simp add: scored_Cons)
  next
    case False
    let ?x = "(hrwScore mix d (snd e), snd e)"
    let ?E = "take (nat (hl_n hl)) F"
    let ?hl = "hl\<lparr>hs := map fst (take (nat (hl_n hl)) (ins ?x ?E)),
                   sis := map snd (take (nat (hl_n hl)) (ins ?x ?E))\<rparr>"
    have le: "int (length ?E) \<le> hl_n hl" using Cons.prems(4) by simp
    have a: "add (hrwScore mix d (snd e)) (snd e) hl = Inr ?hl"
      by (rule add_ins[OF Cons.prems(1,2) descending_take[OF Cons.prems(3)] le Cons.prems(4)])
    have t: "take (nat (hl_n hl)) (ins ?x ?E) = take (nat (hl_n hl)) (ins ?x F)" by (rule take_ins)
    have p1: "hs ?hl = map fst (take (nat (hl_n ?hl)) (ins ?x F))" using t by simp
    have p2: "sis ?hl = map snd (take (nat (hl_n ?hl)) (ins ?x F))" using t by simp
    have p4: "1 \<le> hl_n ?hl" using Cons.prems(4) by simp
    have "addAll mix d (e # rest) hl = addAll mix d rest ?hl"
      using False a by (simp add: hrwScore_def Let_def)
    also note Cons.IH[OF p1 p2 descending_ins[OF Cons.prems(3)] p4]
    finally show ?thesis using False by (simp add: scored_Cons)
  qed
qed

lemma addAll_new:
  assumes "1 \<le> count"
  shows "addAll mix d tmap \<lparr>hs = [], sis = [], hl_n = count\<rparr> =
     Inr \<lparr>hs = map fst (take (nat count) (isort (scored mix d tmap))),
          sis = topk mix d tmap count, hl_n = count\<rparr>"
proof -
  let ?hl = "\<lparr>hs = [], sis = [], hl_n = count\<rparr>"
  have "addAll mix d tmap ?hl =
     Inr (?hl\<lparr>hs := map fst (take (nat (hl_n ?hl)) (foldl (\<lambda>E x. ins x E) [] (scored mix d tmap))),
              sis := map snd (take (nat (hl_n ?hl)) (foldl (\<lambda>E x. ins x E) [] (scored mix d tmap)))\<rparr>)"
    by (rule addAll_ins) (simp_all add: descending_def assms)
  then show ?thesis by (simp add: isort_def topk_def)
qed

lemma HrwTargetList_eq:
  assumes "1 \<le> count"
  shows "HrwTargetList mix xxh tmap uname count =
     (if int (length tmap) < count then Inl (ErrNotEnoughTargets count (int (length tmap)))
      else if count \<noteq> int (length tmap) \<and> int (length (eligible tmap)) < count
           then Inl (ErrNotEnoughTargets count (int (length (eligible tmap))))
           else Inr (topk mix (xxh uname) tmap count))"
proof -
  have nn: "\<not> count < 0" using assms by simp
  have len: "length (topk mix (xxh uname) tmap count) = min (nat count) (length (eligible tmap))"
    by (simp add: topk_def length_isort scored_def)
  have lt: "(int (length (topk mix (xxh uname) tmap count)) < count) = (int (length (eligible tmap)) < count)"
    unfolding len using assms by auto
  have av: "int (length (eligible tmap)) < count \<Longrightarrow>
      int (length (topk mix (xxh uname) tmap count)) = int (length (eligible tmap))"
    unfolding len by auto
  show ?thesis
    using lt av
    by (simp add: HrwTargetList_def CountTargets_def newHrwList_def nn addAll_new[OF assms] get_def Let_def)
qed

lemma distinct_ins:
  "distinct (map fst (ins x E)) = (fst x \<notin> set (map fst E) \<and> distinct (map fst E))"
  by (induction E) (auto simp: set_ins)

lemma distinct_foldl_ins:
  "distinct (map fst (foldl (\<lambda>E x. ins x E) F xs)) = distinct (map fst (F @ xs))"
proof (induction xs arbitrary: F)
  case Nil
  then show ?case by simp
next
  case (Cons x xs)
  show ?case
    unfolding foldl_Cons Cons.IH
    by (auto simp: distinct_ins set_ins)
qed

lemma distinct_isort: "distinct (map fst (isort xs)) = distinct (map fst xs)"
  by (simp add: isort_def distinct_foldl_ins)

lemma map_fst_scored: "map fst (scored mix d tmap) = map (hrwScore mix d) (eligible tmap)"
  by (simp add: scored_def)

lemma scored_fst: "a \<in> set (scored mix d tmap) \<Longrightarrow> fst a = hrwScore mix d (snd a)"
  by (auto simp: scored_def)

lemma scored_snd: "a \<in> set (scored mix d tmap) \<Longrightarrow> snd a \<in> set (eligible tmap)"
  by (auto simp: scored_def)

lemma strict_descending:
  "descending L \<Longrightarrow> distinct (map fst L) \<Longrightarrow> sorted_wrt (\<lambda>a b. fst a > fst b) L"
  unfolding descending_def
  by (induction L) (fastforce simp: less_le)+

lemma topk_descending:
  "sorted_wrt (\<lambda>a b. hrwScore mix d a \<ge> hrwScore mix d b) (topk mix d tmap count)"
proof -
  let ?L = "take (nat count) (isort (scored mix d tmap))"
  have sub: "set ?L \<subseteq> set (scored mix d tmap)"
    using set_take_subset[of "nat count" "isort (scored mix d tmap)"] by (simp add: set_isort)
  have fs: "\<And>a. a \<in> set ?L \<Longrightarrow> fst a = hrwScore mix d (snd a)"
    using sub scored_fst by blast
  have "descending ?L" by (rule descending_take[OF descending_isort])
  then have "sorted_wrt (\<lambda>a b. fst a \<ge> fst b) ?L" by (simp add: descending_def)
  then have "sorted_wrt (\<lambda>a b. hrwScore mix d (snd a) \<ge> hrwScore mix d (snd b)) ?L"
    by (rule sorted_wrt_mono_rel[rotated]) (simp add: fs)
  then show ?thesis by (simp add: topk_def sorted_wrt_map)
qed

lemma topk_strict:
  assumes "distinct (map (hrwScore mix d) (eligible tmap))"
  shows "sorted_wrt (\<lambda>a b. hrwScore mix d a > hrwScore mix d b) (topk mix d tmap count)"
proof -
  let ?L = "take (nat count) (isort (scored mix d tmap))"
  have sub: "set ?L \<subseteq> set (scored mix d tmap)"
    using set_take_subset[of "nat count" "isort (scored mix d tmap)"] by (simp add: set_isort)
  have fs: "\<And>a. a \<in> set ?L \<Longrightarrow> fst a = hrwScore mix d (snd a)"
    using sub scored_fst by blast
  have d: "descending ?L" by (rule descending_take[OF descending_isort])
  have "distinct (map fst (isort (scored mix d tmap)))"
    using assms by (simp add: distinct_isort map_fst_scored)
  then have "distinct (map fst ?L)" by (simp add: take_map[symmetric] distinct_take)
  from strict_descending[OF d this]
  have "sorted_wrt (\<lambda>a b. hrwScore mix d (snd a) > hrwScore mix d (snd b)) ?L"
    by (rule sorted_wrt_mono_rel[rotated]) (simp add: fs)
  then show ?thesis by (simp add: topk_def sorted_wrt_map)
qed

lemma descending_hd_max: "descending L \<Longrightarrow> a \<in> set L \<Longrightarrow> fst a \<le> fst (hd L)"
  unfolding descending_def by (cases L) auto

lemma topk_hd:
  assumes "topk mix d tmap count \<noteq> []"
  shows "hd (topk mix d tmap count) \<in> set (eligible tmap) \<and>
         (\<forall>z\<in>set (eligible tmap). hrwScore mix d z \<le> hrwScore mix d (hd (topk mix d tmap count)))"
proof -
  let ?I = "isort (scored mix d tmap)"
  have ne: "?I \<noteq> []" and pos: "0 < nat count" using assms by (auto simp: topk_def)
  have hd: "hd (topk mix d tmap count) = snd (hd ?I)"
    using ne pos by (cases ?I; cases "nat count") (simp_all add: topk_def)
  have in_sc: "hd ?I \<in> set (scored mix d tmap)"
    using ne set_isort[of "scored mix d tmap"] hd_in_set by blast
  have mx: "\<And>z. z \<in> set (eligible tmap) \<Longrightarrow> hrwScore mix d z \<le> hrwScore mix d (snd (hd ?I))"
  proof -
    fix z assume "z \<in> set (eligible tmap)"
    then have "(hrwScore mix d z, z) \<in> set ?I" by (simp add: set_isort scored_def)
    from descending_hd_max[OF descending_isort this] scored_fst[OF in_sc]
    show "hrwScore mix d z \<le> hrwScore mix d (snd (hd ?I))" by simp
  qed
  show ?thesis using scored_snd[OF in_sc] mx hd by simp
qed

lemma candidates_Cons:
  "candidates s (e # rest) =
     (if s \<and> InMaintOrDecomm (snd e) then candidates s rest else snd e # candidates s rest)"
  by (simp add: candidates_def)

lemma eligible_candidates: "eligible tmap = candidates True tmap"
  by (simp add: eligible_def candidates_def)

lemma hrwStep_good:
  assumes "hrwGood mix d S st"
  shows "hrwGood mix d (S \<union> set (candidates s [e])) (hrwStep mix d s st e)"
proof (cases "s \<and> InMaintOrDecomm (snd e)")
  case True
  then show ?thesis using assms by (simp add: hrwStep_def candidates_def)
next
  case False
  let ?cs = "hrwScore mix d (snd e)"
  have c: "candidates s [e] = [snd e]" using False by (simp add: candidates_def)
  show ?thesis
  proof (cases "?cs \<ge> fst st")
    case True
    have st: "hrwStep mix d s st e = (?cs, Some (snd e))"
      using False True by (auto simp add: hrwStep_def hrwScore_def Let_def)
    have "\<forall>z\<in>S. hrwScore mix d z \<le> ?cs"
      using assms True by (auto simp: hrwGood_def)
    then show ?thesis unfolding st c by (simp add: hrwGood_def)
  next
    case F: False
    have st: "hrwStep mix d s st e = st"
      using False F by (auto simp add: hrwStep_def hrwScore_def Let_def)
    have nz: "fst st \<noteq> 0" using F by auto
    have "?cs \<le> fst st" using F by simp
    then show ?thesis unfolding st c using assms nz by (auto simp: hrwGood_def)
  qed
qed

lemma foldl_hrwStep_good:
  "hrwGood mix d S st \<Longrightarrow>
   hrwGood mix d (S \<union> set (candidates s tmap)) (foldl (hrwStep mix d s) st tmap)"
proof (induction tmap arbitrary: S st)
  case Nil
  then show ?case by (simp add: candidates_def)
next
  case (Cons e rest)
  have "S \<union> set (candidates s (e # rest)) = (S \<union> set (candidates s [e])) \<union> set (candidates s rest)"
    by (auto simp: candidates_def)
  then show ?case using Cons.IH[OF hrwStep_good[OF Cons.prems]] by simp
qed

lemma HrwHash2T_max:
  "(candidates s tmap = [] \<and> HrwHash2T mix tmap d s = Inl (ErrNoNodes (length tmap))) \<or>
   (\<exists>y. HrwHash2T mix tmap d s = Inr y \<and> y \<in> set (candidates s tmap) \<and>
        (\<forall>z\<in>set (candidates s tmap). hrwScore mix d z \<le> hrwScore mix d y))"
proof -
  have "hrwGood mix d {} (0, None)" by (simp add: hrwGood_def)
  from foldl_hrwStep_good[OF this, of s tmap]
  have g: "hrwGood mix d (set (candidates s tmap)) (foldl (hrwStep mix d s) (0, None) tmap)" by simp
  show ?thesis
  proof (cases "snd (foldl (hrwStep mix d s) (0, None) tmap)")
    case None
    then show ?thesis using g by (simp add: hrwGood_def HrwHash2T_def)
  next
    case (Some y)
    then show ?thesis using g by (auto simp: hrwGood_def HrwHash2T_def)
  qed
qed

lemma HrwHash2T_unique:
  assumes "distinct (map (hrwScore mix d) (candidates s tmap))"
    and "y \<in> set (candidates s tmap)"
    and "\<forall>z\<in>set (candidates s tmap). hrwScore mix d z \<le> hrwScore mix d y"
  shows "HrwHash2T mix tmap d s = Inr y"
proof -
  have inj: "inj_on (hrwScore mix d) (set (candidates s tmap))"
    using assms(1) by (simp add: distinct_map)
  from HrwHash2T_max[of s tmap mix d] assms(2)
  obtain y' where y': "HrwHash2T mix tmap d s = Inr y'" "y' \<in> set (candidates s tmap)"
     "\<forall>z\<in>set (candidates s tmap). hrwScore mix d z \<le> hrwScore mix d y'"
    by auto
  have "hrwScore mix d y = hrwScore mix d y'"
    using assms(2,3) y'(2,3) by (simp add: order_antisym)
  then have "y = y'" using inj assms(2) y'(2) by (simp add: inj_on_def)
  then show ?thesis using y'(1) by simp
qed

lemma addAll_zero:
  assumes "hl_n hl = 0" "sis hl = []" "addAll mix d tmap hl = Inr hl'"
  shows "sis hl' = []"
  using assms
proof (induction tmap)
  case Nil
  then show ?case by simp
next
  case (Cons e rest)
  show ?case
  proof (cases "InMaintOrDecomm (snd e)")
    case True
    then show ?thesis using Cons by simp
  next
    case False
    have "add (mix (idDigest (snd e) XOR d)) (snd e) hl = Inl IndexOutOfRange"
      using Cons.prems(1,2) by (simp add: add_def)
    then show ?thesis using False Cons.prems(3) by (simp add: Let_def)
  qed
qed

lemma HrwTargetList_success:
  assumes "HrwTargetList mix xxh tmap uname count = Inr ns"
  shows "ns = [] \<or> (1 \<le> count \<and> ns = topk mix (xxh uname) tmap count)"
proof (cases "1 \<le> count")
  case True
  then show ?thesis
    using assms by (auto simp: HrwTargetList_eq split: if_splits)
next
  case False
  show ?thesis
  proof (cases "count = 0")
    case True
    have "ns = []"
      using assms True addAll_zero[of "\<lparr>hs = [], sis = [], hl_n = 0\<rparr>" mix "xxh uname" tmap]
      by (auto simp: HrwTargetList_def newHrwList_def get_def Let_def split: if_splits sum.splits)
    then show ?thesis by simp
  next
    case F: False
    then have "count < 0" using False by simp
    then show ?thesis using assms
      by (auto simp: HrwTargetList_def newHrwList_def Let_def split: if_splits)
  qed
qed

text \<open>
  C2 (amended). Whenever \<open>HrwTargetList\<close> succeeds, the scores of the returned nodes
  are in descending order. When the scores of the eligible targets are pairwise distinct,
  the order is strictly descending and the first node of a non-empty result is the target
  that \<open>HrwHash2T\<close> returns for the same digest with \<open>skipMaint = true\<close>.
\<close>

theorem HrwTargetList_descending:
  assumes "HrwTargetList mix xxh tmap uname count = Inr ns"
  shows "sorted_wrt (\<lambda>a b. hrwScore mix (xxh uname) a \<ge> hrwScore mix (xxh uname) b) ns \<and>
         (distinct (map (hrwScore mix (xxh uname)) (eligible tmap)) \<longrightarrow>
            sorted_wrt (\<lambda>a b. hrwScore mix (xxh uname) a > hrwScore mix (xxh uname) b) ns \<and>
            (ns \<noteq> [] \<longrightarrow> HrwHash2T mix tmap (xxh uname) True = Inr (hd ns)))"
proof (cases "ns = []")
  case True
  then show ?thesis by simp
next
  case False
  then have ns: "ns = topk mix (xxh uname) tmap count"
    using HrwTargetList_success[OF assms] by simp
  have a: "sorted_wrt (\<lambda>a b. hrwScore mix (xxh uname) a \<ge> hrwScore mix (xxh uname) b) ns"
    unfolding ns by (rule topk_descending)
  have b: "sorted_wrt (\<lambda>a b. hrwScore mix (xxh uname) a > hrwScore mix (xxh uname) b) ns"
    if "distinct (map (hrwScore mix (xxh uname)) (eligible tmap))"
    unfolding ns by (rule topk_strict[OF that])
  have c: "HrwHash2T mix tmap (xxh uname) True = Inr (hd ns)"
    if d: "distinct (map (hrwScore mix (xxh uname)) (eligible tmap))"
  proof -
    from topk_hd[of mix "xxh uname" tmap count] False ns
    have h: "hd ns \<in> set (candidates True tmap)"
        "\<forall>z\<in>set (candidates True tmap). hrwScore mix (xxh uname) z \<le> hrwScore mix (xxh uname) (hd ns)"
      by (simp_all add: eligible_candidates)
    show ?thesis
      by (rule HrwHash2T_unique[OF _ h]) (use d in \<open>simp add: eligible_candidates\<close>)
  qed
  show ?thesis using a b c by blast
qed

text \<open>
  C2 on three targets, one of them in maintenance: distinct scores, the list is strictly
  descending and starts with the target of \<open>HrwHash2T\<close>.
\<close>

theorem HrwTargetList_descending_witness:
  "HrwTargetList (\<lambda>x. x) (\<lambda>_. 0) [(''A'', nodeA), (''M'', nodeM), (''C'', nodeC)] ''k'' 2 = Inr [nodeC, nodeA] \<and>
   sorted_wrt (\<lambda>a b. hrwScore (\<lambda>x. x) 0 a > hrwScore (\<lambda>x. x) 0 b) [nodeC, nodeA] \<and>
   HrwHash2T (\<lambda>x. x) [(''A'', nodeA), (''M'', nodeM), (''C'', nodeC)] 0 True = Inr nodeC"
proof -
  have r: "HrwTargetList (\<lambda>x. x) (\<lambda>_. 0) [(''A'', nodeA), (''M'', nodeM), (''C'', nodeC)] ''k'' 2 = Inr [nodeC, nodeA]"
    by (simp add: HrwTargetList_def CountTargets_def newHrwList_def add_def get_def
          nodeA_def nodeC_def nodeM_def InMaintOrDecomm_def Let_def)
  have d: "distinct (map (hrwScore (\<lambda>x. x) ((\<lambda>_. 0) ''k'')) (eligible [(''A'', nodeA), (''M'', nodeM), (''C'', nodeC)]))"
    by (simp add: eligible_def hrwScore_def nodeA_def nodeC_def nodeM_def InMaintOrDecomm_def)
  from HrwTargetList_descending[OF r] d show ?thesis using r by simp
qed

text \<open>
  C2 as stated fails on two eligible targets of equal score: the list of length two is
  returned, its scores are equal (not strictly descending), and \<open>HrwHash2T\<close> returns
  the second node of the list, not the first.
\<close>

theorem HrwTargetList_descending_counterexample:
  "HrwTargetList (\<lambda>x. x) (\<lambda>_. 0) [(''A'', nodeA), (''B'', nodeB)] ''k'' 2 = Inr [nodeA, nodeB] \<and>
   \<not> sorted_wrt (\<lambda>a b. hrwScore (\<lambda>x. x) 0 a > hrwScore (\<lambda>x. x) 0 b) [nodeA, nodeB] \<and>
   HrwHash2T (\<lambda>x. x) [(''A'', nodeA), (''B'', nodeB)] 0 True = Inr nodeB \<and>
   nodeB \<noteq> hd [nodeA, nodeB]"
  by (simp add: HrwTargetList_def CountTargets_def newHrwList_def add_def get_def
        HrwHash2T_def hrwStep_def hrwScore_def
        nodeA_def nodeB_def InMaintOrDecomm_def Let_def)

lemma length_eligible_le: "length (eligible tmap) \<le> length tmap"
  by (simp add: eligible_def)

lemma length_topk: "length (topk mix d tmap count) = min (nat count) (length (eligible tmap))"
  by (simp add: topk_def length_isort scored_def)

lemma count_list_ins: "count_list (map snd (ins a E)) x = count_list (map snd (a # E)) x"
  by (induction E) auto

lemma count_list_foldl_ins:
  "count_list (map snd (foldl (\<lambda>E x. ins x E) F xs)) x
     = count_list (map snd F) x + count_list (map snd xs) x"
proof (induction xs arbitrary: F)
  case Nil
  then show ?case by simp
next
  case (Cons a xs)
  show ?case using Cons.IH[of "ins a F"] count_list_ins[of a F x] by simp
qed

lemma count_list_isort: "count_list (map snd (isort xs)) x = count_list (map snd xs) x"
  by (simp add: isort_def count_list_foldl_ins)

lemma map_snd_scored: "map snd (scored mix d tmap) = eligible tmap"
  by (simp add: scored_def comp_def)

lemma count_list_take: "count_list (take k xs) x \<le> count_list xs x"
proof -
  have "count_list (take k xs @ drop k xs) x = count_list (take k xs) x + count_list (drop k xs) x"
    by (rule count_list_append)
  then show ?thesis by simp
qed

lemma count_list_topk:
  "count_list (topk mix d tmap count) x \<le> count_list (eligible tmap) x"
proof -
  have "count_list (topk mix d tmap count) x
      = count_list (take (nat count) (map snd (isort (scored mix d tmap)))) x"
    by (simp add: topk_def take_map)
  also have "\<dots> \<le> count_list (map snd (isort (scored mix d tmap))) x"
    by (rule count_list_take)
  also have "\<dots> = count_list (eligible tmap) x"
    by (simp add: count_list_isort map_snd_scored)
  finally show ?thesis .
qed

lemma count_list_topk_all:
  assumes "length (eligible tmap) \<le> nat count"
  shows "count_list (topk mix d tmap count) x = count_list (eligible tmap) x"
proof -
  have "length (isort (scored mix d tmap)) \<le> nat count"
    using assms by (simp add: length_isort scored_def)
  then have "topk mix d tmap count = map snd (isort (scored mix d tmap))"
    by (simp add: topk_def)
  then show ?thesis by (simp add: count_list_isort map_snd_scored)
qed

text \<open>
  C3 (amended). For \<open>count \<ge> 1\<close>, \<open>HrwTargetList\<close> fails with \<open>NotEnoughTargets\<close>
  exactly when fewer than \<open>count\<close> eligible targets exist and \<open>count\<close> differs from the
  number of targets in \<open>Tmap\<close>. Otherwise it returns eligible targets, none of them more
  often than it occurs among the eligible targets of the map: all of them, each as often
  as it occurs there, when \<open>count\<close> equals the number of targets in \<open>Tmap\<close>, and
  exactly \<open>count\<close> of them in every other case.
\<close>

theorem HrwTargetList_not_enough_targets:
  assumes "1 \<le> count"
  shows "((\<exists>a. HrwTargetList mix xxh tmap uname count = Inl (ErrNotEnoughTargets count a)) =
            (count \<noteq> int (length tmap) \<and> int (length (eligible tmap)) < count)) \<and>
         (\<not> (count \<noteq> int (length tmap) \<and> int (length (eligible tmap)) < count) \<longrightarrow>
            (\<exists>ns. HrwTargetList mix xxh tmap uname count = Inr ns \<and>
                  set ns \<subseteq> set (eligible tmap) \<and>
                  (\<forall>x. count_list ns x \<le> count_list (eligible tmap) x) \<and>
                  (if count = int (length tmap)
                   then length ns = length (eligible tmap) \<and>
                        (\<forall>x. count_list ns x = count_list (eligible tmap) x)
                   else length ns = nat count)))"
proof -
  have le: "int (length (eligible tmap)) \<le> int (length tmap)"
    using length_eligible_le[of tmap] by simp
  have sub: "set (topk mix (xxh uname) tmap count) \<subseteq> set (eligible tmap)"
  proof
    fix x assume "x \<in> set (topk mix (xxh uname) tmap count)"
    then obtain a where "a \<in> set (take (nat count) (isort (scored mix (xxh uname) tmap)))" "x = snd a"
      by (auto simp: topk_def)
    then have "a \<in> set (scored mix (xxh uname) tmap)" "x = snd a"
      using set_isort in_set_takeD by fastforce+
    then show "x \<in> set (eligible tmap)" by (simp add: scored_snd)
  qed
  have cl: "\<forall>x. count_list (topk mix (xxh uname) tmap count) x \<le> count_list (eligible tmap) x"
    by (simp add: count_list_topk)
  have ce: "count = int (length tmap) \<Longrightarrow>
      \<forall>x. count_list (topk mix (xxh uname) tmap count) x = count_list (eligible tmap) x"
    using le by (intro allI count_list_topk_all) simp
  show ?thesis
    using le assms sub cl ce
    by (auto simp: HrwTargetList_eq[OF assms] length_topk)
qed

text \<open>
  C3 (amended) on a map of three targets, two of them eligible: \<open>count = 1\<close> returns one
  target and \<open>count = 3\<close>, the size of the map, returns the two eligible ones; \<open>count = 3\<close>
  on a map of two targets is a failure.
\<close>

theorem HrwTargetList_not_enough_targets_witness:
  "(\<exists>a. HrwTargetList (\<lambda>x. x) (\<lambda>_. 0) [(''A'', nodeA), (''M'', nodeM), (''C'', nodeC)] ''k'' 1
          = Inl (ErrNotEnoughTargets 1 a)) = False \<and>
   HrwTargetList (\<lambda>x. x) (\<lambda>_. 0) [(''A'', nodeA), (''M'', nodeM), (''C'', nodeC)] ''k'' 1 = Inr [nodeC] \<and>
   HrwTargetList (\<lambda>x. x) (\<lambda>_. 0) [(''A'', nodeA), (''M'', nodeM), (''C'', nodeC)] ''k'' 3 = Inr [nodeC, nodeA] \<and>
   (\<exists>a. HrwTargetList (\<lambda>x. x) (\<lambda>_. 0) [(''A'', nodeA), (''M'', nodeM)] ''k'' 3
          = Inl (ErrNotEnoughTargets 3 a)) = True"
proof -
  have e1: "length (eligible [(''A'', nodeA), (''M'', nodeM), (''C'', nodeC)]) = 2"
    by (simp add: eligible_def nodeA_def nodeC_def nodeM_def InMaintOrDecomm_def)
  have e2: "length (eligible [(''A'', nodeA), (''M'', nodeM)]) = 1"
    by (simp add: eligible_def nodeA_def nodeM_def InMaintOrDecomm_def)
  have one: "(1::int) \<le> 1" and three: "(1::int) \<le> 3" by simp_all
  have r1: "HrwTargetList (\<lambda>x. x) (\<lambda>_. 0) [(''A'', nodeA), (''M'', nodeM), (''C'', nodeC)] ''k'' 1 = Inr [nodeC]"
    by (simp add: HrwTargetList_def CountTargets_def newHrwList_def add_def get_def
          nodeA_def nodeC_def nodeM_def InMaintOrDecomm_def Let_def)
  have r3: "HrwTargetList (\<lambda>x. x) (\<lambda>_. 0) [(''A'', nodeA), (''M'', nodeM), (''C'', nodeC)] ''k'' 3 = Inr [nodeC, nodeA]"
    by (simp add: HrwTargetList_def CountTargets_def newHrwList_def add_def get_def
          nodeA_def nodeC_def nodeM_def InMaintOrDecomm_def Let_def)
  from HrwTargetList_not_enough_targets[OF one, of "\<lambda>x. x" "\<lambda>_. 0" "[(''A'', nodeA), (''M'', nodeM), (''C'', nodeC)]" "''k''"]
       HrwTargetList_not_enough_targets[OF three, of "\<lambda>x. x" "\<lambda>_. 0" "[(''A'', nodeA), (''M'', nodeM)]" "''k''"]
  show ?thesis unfolding e1 e2 using r1 r3 by simp
qed

text \<open>
  C3 as stated fails on a map whose only target is in maintenance and \<open>count = 1\<close>: no
  eligible target exists, yet the call succeeds and returns the empty list.
\<close>

theorem HrwTargetList_not_enough_targets_counterexample:
  "int (length (eligible [(''M'', nodeM)])) < 1 \<and>
   HrwTargetList (\<lambda>x. x) (\<lambda>_. 0) [(''M'', nodeM)] ''k'' 1 = Inr []"
  by (simp add: HrwTargetList_def CountTargets_def newHrwList_def get_def eligible_def
        nodeM_def InMaintOrDecomm_def Let_def)

lemma HrwHash2T_sole_max:
  assumes "y \<in> set (candidates s tmap)"
    and "\<forall>z\<in>set (candidates s tmap). hrwScore mix d z \<le> hrwScore mix d y"
    and "\<forall>z\<in>set (candidates s tmap). hrwScore mix d z = hrwScore mix d y \<longrightarrow> z = y"
  shows "HrwHash2T mix tmap d s = Inr y"
proof -
  from HrwHash2T_max[of s tmap mix d] assms(1)
  obtain y' where y': "HrwHash2T mix tmap d s = Inr y'" "y' \<in> set (candidates s tmap)"
     "\<forall>z\<in>set (candidates s tmap). hrwScore mix d z \<le> hrwScore mix d y'"
    by auto
  have "hrwScore mix d y' = hrwScore mix d y"
    using assms(1,2) y'(2,3) by (simp add: order_antisym)
  then have "y' = y" using assms(3) y'(2) by simp
  then show ?thesis using y'(1) by simp
qed

text \<open>
  C1 (amended). For two visiting orders of the same target map (distinct keys, equal
  content), a digest and a skip-maintenance flag: when at most one of the targets that
  take part has the maximal score, \<open>HrwHash2T\<close> and \<open>HrwName2T\<close> return the same
  target, or the same error, for both orders.
\<close>

theorem HrwHash2T_order_independent:
  assumes "distinct (map fst tmap1)" "distinct (map fst tmap2)" "map_of tmap1 = map_of tmap2"
    and "\<forall>y\<in>set (candidates skipMaint tmap1). \<forall>z\<in>set (candidates skipMaint tmap1).
           (\<forall>w\<in>set (candidates skipMaint tmap1). hrwScore mix digest w \<le> hrwScore mix digest y) \<and>
           hrwScore mix digest z = hrwScore mix digest y \<longrightarrow> z = y"
  shows "HrwHash2T mix tmap1 digest skipMaint = HrwHash2T mix tmap2 digest skipMaint \<and>
         (xxh uname = digest \<longrightarrow>
            HrwName2T mix xxh tmap1 uname skipMaint = HrwName2T mix xxh tmap2 uname skipMaint)"
proof -
  have st: "set tmap1 = set tmap2"
    using assms(1-3) by (simp add: map_of_inject_set)
  have "distinct tmap1" "distinct tmap2"
    using assms(1,2) by (simp_all add: distinct_map)
  then have len: "length tmap1 = length tmap2"
    using st by (metis distinct_card)
  have sc: "set (candidates skipMaint tmap1) = set (candidates skipMaint tmap2)"
    using st by (simp add: candidates_def)
  have "HrwHash2T mix tmap1 digest skipMaint = HrwHash2T mix tmap2 digest skipMaint"
    using HrwHash2T_max[of skipMaint tmap2 mix digest]
  proof (elim disjE conjE exE)
    assume e: "candidates skipMaint tmap2 = []"
      and r: "HrwHash2T mix tmap2 digest skipMaint = Inl (ErrNoNodes (length tmap2))"
    then have "candidates skipMaint tmap1 = []" using sc by simp
    then have "HrwHash2T mix tmap1 digest skipMaint = Inl (ErrNoNodes (length tmap1))"
      using HrwHash2T_max[of skipMaint tmap1 mix digest] by auto
    then show ?thesis using r len by simp
  next
    fix y assume r: "HrwHash2T mix tmap2 digest skipMaint = Inr y"
      and y: "y \<in> set (candidates skipMaint tmap2)"
      and m: "\<forall>z\<in>set (candidates skipMaint tmap2). hrwScore mix digest z \<le> hrwScore mix digest y"
    have y1: "y \<in> set (candidates skipMaint tmap1)" using y sc by simp
    have m1: "\<forall>z\<in>set (candidates skipMaint tmap1). hrwScore mix digest z \<le> hrwScore mix digest y"
      using m sc by simp
    have u1: "\<forall>z\<in>set (candidates skipMaint tmap1). hrwScore mix digest z = hrwScore mix digest y \<longrightarrow> z = y"
      using assms(4) y1 m1 by blast
    have "HrwHash2T mix tmap1 digest skipMaint = Inr y"
      by (rule HrwHash2T_sole_max[OF y1 m1 u1])
    then show ?thesis using r by simp
  qed
  then show ?thesis by (auto simp: HrwName2T_def)
qed

text \<open>
  C1 (amended) on a map of four targets visited in two orders: one target is in
  maintenance, two have the same score, and the fourth has the maximal score alone.
\<close>

theorem HrwHash2T_order_independent_witness:
  "HrwHash2T (\<lambda>x. x) [(''A'', nodeA), (''B'', nodeB), (''M'', nodeM), (''C'', nodeC)] 0 True
     = HrwHash2T (\<lambda>x. x) [(''C'', nodeC), (''B'', nodeB), (''A'', nodeA), (''M'', nodeM)] 0 True \<and>
   HrwName2T (\<lambda>x. x) (\<lambda>_. 0) [(''A'', nodeA), (''B'', nodeB), (''M'', nodeM), (''C'', nodeC)] ''k'' True
     = HrwName2T (\<lambda>x. x) (\<lambda>_. 0) [(''C'', nodeC), (''B'', nodeB), (''A'', nodeA), (''M'', nodeM)] ''k'' True \<and>
   HrwHash2T (\<lambda>x. x) [(''A'', nodeA), (''B'', nodeB), (''M'', nodeM), (''C'', nodeC)] 0 True = Inr nodeC \<and>
   hrwScore (\<lambda>x. x) 0 nodeA = hrwScore (\<lambda>x. x) 0 nodeB"
proof -
  have 1: "distinct (map fst [(''A'', nodeA), (''B'', nodeB), (''M'', nodeM), (''C'', nodeC)])" by simp
  have 2: "distinct (map fst [(''C'', nodeC), (''B'', nodeB), (''A'', nodeA), (''M'', nodeM)])" by simp
  have 3: "map_of [(''A'', nodeA), (''B'', nodeB), (''M'', nodeM), (''C'', nodeC)]
         = map_of [(''C'', nodeC), (''B'', nodeB), (''A'', nodeA), (''M'', nodeM)]"
    by (rule ext) simp
  have c: "candidates True [(''A'', nodeA), (''B'', nodeB), (''M'', nodeM), (''C'', nodeC)] = [nodeA, nodeB, nodeC]"
    by (simp add: candidates_def nodeA_def nodeB_def nodeC_def nodeM_def InMaintOrDecomm_def)
  have s: "hrwScore (\<lambda>x. x) 0 nodeA = 5" "hrwScore (\<lambda>x. x) 0 nodeB = 5" "hrwScore (\<lambda>x. x) 0 nodeC = 9"
    by (simp_all add: hrwScore_def nodeA_def nodeB_def nodeC_def)
  have 4: "\<forall>y\<in>set (candidates True [(''A'', nodeA), (''B'', nodeB), (''M'', nodeM), (''C'', nodeC)]).
           \<forall>z\<in>set (candidates True [(''A'', nodeA), (''B'', nodeB), (''M'', nodeM), (''C'', nodeC)]).
           (\<forall>w\<in>set (candidates True [(''A'', nodeA), (''B'', nodeB), (''M'', nodeM), (''C'', nodeC)]).
               hrwScore (\<lambda>x. x) 0 w \<le> hrwScore (\<lambda>x. x) 0 y) \<and>
           hrwScore (\<lambda>x. x) 0 z = hrwScore (\<lambda>x. x) 0 y \<longrightarrow> z = y"
    unfolding c by (simp add: s)
  have r: "HrwHash2T (\<lambda>x. x) [(''A'', nodeA), (''B'', nodeB), (''M'', nodeM), (''C'', nodeC)] 0 True = Inr nodeC"
    by (simp add: HrwHash2T_def hrwStep_def nodeA_def nodeB_def nodeC_def nodeM_def InMaintOrDecomm_def Let_def)
  from HrwHash2T_order_independent[OF 1 2 3 4, of "\<lambda>_. 0" "''k''"] r s show ?thesis by simp
qed

text \<open>
  C1 as stated fails on a map of two targets of equal score: visited in the two possible
  orders, the same map gives two different targets.
\<close>

theorem HrwHash2T_order_independent_counterexample:
  "map_of [(''A'', nodeA), (''B'', nodeB)] = map_of [(''B'', nodeB), (''A'', nodeA)] \<and>
   HrwHash2T (\<lambda>x. x) [(''A'', nodeA), (''B'', nodeB)] 0 True = Inr nodeB \<and>
   HrwHash2T (\<lambda>x. x) [(''B'', nodeB), (''A'', nodeA)] 0 True = Inr nodeA \<and>
   nodeA \<noteq> nodeB"
proof -
  have "map_of [(''A'', nodeA), (''B'', nodeB)] = map_of [(''B'', nodeB), (''A'', nodeA)]"
    by (rule ext) simp
  then show ?thesis
    by (simp add: HrwHash2T_def hrwStep_def nodeA_def nodeB_def InMaintOrDecomm_def Let_def)
qed

section \<open>Proofs: the jogger queue\<close>

lemma selectPut_room:
  "length ch < queueChSize \<Longrightarrow>
   selectPut env ch = (if lockedAt env < putInQueueTimeout then ChanSend else pick env)"
  by (simp add: selectPut_def sendReadyAt_def timerReadyAt_def max_def)

lemma selectPut_full_none:
  "\<not> length ch < queueChSize \<Longrightarrow> recvAfter env = None \<Longrightarrow> selectPut env ch = TimerFired"
  by (simp add: selectPut_def sendReadyAt_def)

lemma selectPut_full_some:
  "\<not> length ch < queueChSize \<Longrightarrow> recvAfter env = Some d \<Longrightarrow>
   selectPut env ch =
     (if lockedAt env + d < max (lockedAt env) putInQueueTimeout then ChanSend
      else if max (lockedAt env) putInQueueTimeout < lockedAt env + d then TimerFired
      else pick env)"
  by (auto simp add: selectPut_def sendReadyAt_def timerReadyAt_def max_def)

lemma put_length:
  assumes "length (q_ch q) \<le> queueChSize"
  shows "length (q_ch (fst (put env q t))) \<le> queueChSize"
proof (cases "length (q_ch q) < queueChSize")
  case True
  then show ?thesis using assms
    by (simp add: put_def split: selectCase.split)
next
  case False
  then have "q_ch q \<noteq> []" by (auto simp: queueChSize_def)
  then have "length (tl (q_ch q) @ [t]) = length (q_ch q)" by simp
  then show ?thesis using assms False
    by (simp add: put_def split: selectCase.split)
qed

text \<open>
  C4 (amended). The uid of a task is \<open>link|bucket|objname\<close>. If the uid is in the set of
  the queue, \<open>put\<close> returns \<open>added = false\<close> with no error and leaves the queue as it
  is. If the uid is absent, \<open>put\<close> waits for the channel to accept the task or for the
  timer of ten seconds that it started on entry, before it took the lock of the queue:
  \<^item> when the buffer of \<open>queueChSize\<close> tasks has room before the timer has fired, at
    the \<open>select\<close> statement or through a later receive, the task is appended to the
    channel, its uid is added to the set and \<open>put\<close> returns \<open>added = true\<close> with no
    error;
  \<^item> when the buffer is full at the \<open>select\<close> statement and no receive makes room
    before the timer has fired, \<open>put\<close> returns the timeout error with HTTP status 408
    and leaves the queue as it is;
  \<^item> when both cases can proceed from the same moment, either of the two happens: the
    buffer has room when \<open>put\<close> reaches the \<open>select\<close> statement ten seconds or more
    after entry, or a receive makes room at the moment from which the timer case can
    proceed.

  The buffer never holds more than \<open>queueChSize\<close> tasks.
\<close>

theorem put_contract:
  assumes "length (q_ch q) \<le> queueChSize"
  shows
  "uid (request t) = Link (obj (request t)) @ ''|'' @ bucket (request t) @ ''|'' @ Objname (obj (request t)) \<and>
   (uid (request t) \<in> q_m q \<longrightarrow> put env q t = (q, False, None, 0)) \<and>
   (uid (request t) \<notin> q_m q \<and> length (q_ch q) < queueChSize \<and> lockedAt env < putInQueueTimeout \<longrightarrow>
      put env q t = (q\<lparr>q_ch := q_ch q @ [t], q_m := insert (uid (request t)) (q_m q)\<rparr>, True, None, 0)) \<and>
   (uid (request t) \<notin> q_m q \<and> length (q_ch q) = queueChSize \<and> recvAfter env = Some d \<and>
    lockedAt env + d < putInQueueTimeout \<longrightarrow>
      put env q t = (q\<lparr>q_ch := tl (q_ch q) @ [t], q_m := insert (uid (request t)) (q_m q)\<rparr>, True, None, 0)) \<and>
   (uid (request t) \<notin> q_m q \<and> length (q_ch q) = queueChSize \<and>
    (recvAfter env = None \<or> (recvAfter env = Some d \<and> 0 < d \<and> putInQueueTimeout < lockedAt env + d)) \<longrightarrow>
      put env q t = (q, False, Some (ErrPutTimeout t), 408)) \<and>
   (uid (request t) \<notin> q_m q \<and>
    (length (q_ch q) < queueChSize \<and> putInQueueTimeout \<le> lockedAt env \<or>
     length (q_ch q) = queueChSize \<and> recvAfter env = Some d \<and>
     lockedAt env + d = max (lockedAt env) putInQueueTimeout) \<longrightarrow>
      put env q t =
        (if pick env = TimerFired then (q, False, Some (ErrPutTimeout t), 408)
         else (q\<lparr>q_ch := (if length (q_ch q) < queueChSize then q_ch q else tl (q_ch q)) @ [t],
                  q_m := insert (uid (request t)) (q_m q)\<rparr>, True, None, 0))) \<and>
   length (q_ch (fst (put env q t))) \<le> queueChSize"
proof -
  have u: "uid (request t) = Link (obj (request t)) @ ''|'' @ bucket (request t) @ ''|'' @ Objname (obj (request t))"
    by (simp add: uid_def)
  have a: "uid (request t) \<in> q_m q \<longrightarrow> put env q t = (q, False, None, 0)"
    by (simp add: put_def)
  have b: "uid (request t) \<notin> q_m q \<and> length (q_ch q) < queueChSize \<and> lockedAt env < putInQueueTimeout \<longrightarrow>
      put env q t = (q\<lparr>q_ch := q_ch q @ [t], q_m := insert (uid (request t)) (q_m q)\<rparr>, True, None, 0)"
    by (simp add: put_def selectPut_room)
  have c: "uid (request t) \<notin> q_m q \<and> length (q_ch q) = queueChSize \<and> recvAfter env = Some d \<and>
    lockedAt env + d < putInQueueTimeout \<longrightarrow>
      put env q t = (q\<lparr>q_ch := tl (q_ch q) @ [t], q_m := insert (uid (request t)) (q_m q)\<rparr>, True, None, 0)"
    by (auto simp add: put_def selectPut_full_some)
  have d: "uid (request t) \<notin> q_m q \<and> length (q_ch q) = queueChSize \<and>
    (recvAfter env = None \<or> (recvAfter env = Some d \<and> 0 < d \<and> putInQueueTimeout < lockedAt env + d)) \<longrightarrow>
      put env q t = (q, False, Some (ErrPutTimeout t), 408)"
    by (auto simp add: put_def selectPut_full_some selectPut_full_none StatusRequestTimeout_def)
  have e: "uid (request t) \<notin> q_m q \<and>
    (length (q_ch q) < queueChSize \<and> putInQueueTimeout \<le> lockedAt env \<or>
     length (q_ch q) = queueChSize \<and> recvAfter env = Some d \<and>
     lockedAt env + d = max (lockedAt env) putInQueueTimeout) \<longrightarrow>
      put env q t =
        (if pick env = TimerFired then (q, False, Some (ErrPutTimeout t), 408)
         else (q\<lparr>q_ch := (if length (q_ch q) < queueChSize then q_ch q else tl (q_ch q)) @ [t],
                  q_m := insert (uid (request t)) (q_m q)\<rparr>, True, None, 0))"
    by (auto simp add: put_def selectPut_full_some selectPut_room StatusRequestTimeout_def
          split: selectCase.split)
  have f: "length (q_ch (fst (put env q t))) \<le> queueChSize"
    by (rule put_length[OF assms])
  show ?thesis
    apply (intro conjI)
          apply (rule u)
         apply (rule a)
        apply (rule b)
       apply (rule c)
      apply (rule d)
     apply (rule e)
    apply (rule f)
    done
qed

text \<open>
  C4 (amended) on a queue that holds one task and on a queue whose buffer is full: a
  duplicate, a send at once, a send after a receive three seconds after entry, and a
  timeout with no receive.
\<close>

theorem put_contract_witness:
  "put \<lparr>lockedAt = 0, recvAfter = None, pick = ChanSend\<rparr> demoQueue (demoTask ''a'') = (demoQueue, False, None, 0) \<and>
   put \<lparr>lockedAt = 0, recvAfter = None, pick = TimerFired\<rparr> demoQueue (demoTask ''c'') =
     (\<lparr>q_ch = [demoTask ''a'', demoTask ''c''], q_m = {''http://x/c|b|c'', ''http://x/a|b|a''}\<rparr>, True, None, 0) \<and>
   put \<lparr>lockedAt = 1000000000, recvAfter = Some 2000000000, pick = TimerFired\<rparr> fullQueue (demoTask ''c'') =
     (\<lparr>q_ch = replicate 199 (demoTask ''a'') @ [demoTask ''c''],
       q_m = {''http://x/c|b|c'', ''http://x/a|b|a''}\<rparr>, True, None, 0) \<and>
   put \<lparr>lockedAt = 1000000000, recvAfter = None, pick = ChanSend\<rparr> fullQueue (demoTask ''c'') =
     (fullQueue, False, Some (ErrPutTimeout (demoTask ''c'')), 408)"
proof -
  have l1: "length (q_ch demoQueue) \<le> queueChSize" "length (q_ch demoQueue) < queueChSize"
    by (simp_all add: demoQueue_def queueChSize_def)
  have l2: "length (q_ch fullQueue) \<le> queueChSize" "length (q_ch fullQueue) = queueChSize"
    by (simp_all add: fullQueue_def queueChSize_def)
  have a: "uid (request (demoTask ''a'')) \<in> q_m demoQueue"
    by (simp add: demoTask_def demoQueue_def uid_def)
  have c: "uid (request (demoTask ''c'')) \<notin> q_m demoQueue"
    by (simp add: demoTask_def demoQueue_def uid_def)
  have c2: "uid (request (demoTask ''c'')) \<notin> q_m fullQueue"
    by (simp add: demoTask_def fullQueue_def uid_def)
  have u: "uid (request (demoTask ''c'')) = ''http://x/c|b|c''"
    by (simp add: demoTask_def uid_def)
  have tlr: "tl (q_ch fullQueue) = replicate 199 (demoTask ''a'')"
    by (simp add: fullQueue_def numeral_eq_Suc)
  have t: "(0::nat) < putInQueueTimeout" "(1000000000::nat) + 2000000000 < putInQueueTimeout"
    by (simp_all add: putInQueueTimeout_def)
  note A = put_contract[OF l1(1), of "demoTask ''a''" "\<lparr>lockedAt = 0, recvAfter = None, pick = ChanSend\<rparr>" 0]
  note B = put_contract[OF l1(1), of "demoTask ''c''" "\<lparr>lockedAt = 0, recvAfter = None, pick = TimerFired\<rparr>" 0]
  note C = put_contract[OF l2(1), of "demoTask ''c''"
      "\<lparr>lockedAt = 1000000000, recvAfter = Some 2000000000, pick = TimerFired\<rparr>" 2000000000]
  note D = put_contract[OF l2(1), of "demoTask ''c''"
      "\<lparr>lockedAt = 1000000000, recvAfter = None, pick = ChanSend\<rparr>" 0]
  have 1: "put \<lparr>lockedAt = 0, recvAfter = None, pick = ChanSend\<rparr> demoQueue (demoTask ''a'') = (demoQueue, False, None, 0)"
    using A[THEN conjunct2, THEN conjunct1] a by simp
  have 2: "put \<lparr>lockedAt = 0, recvAfter = None, pick = TimerFired\<rparr> demoQueue (demoTask ''c'') =
     (\<lparr>q_ch = [demoTask ''a'', demoTask ''c''], q_m = {''http://x/c|b|c'', ''http://x/a|b|a''}\<rparr>, True, None, 0)"
    using B[THEN conjunct2, THEN conjunct2, THEN conjunct1] c l1(2) t(1)
    unfolding u by (simp add: demoQueue_def)
  have 3: "put \<lparr>lockedAt = 1000000000, recvAfter = Some 2000000000, pick = TimerFired\<rparr> fullQueue (demoTask ''c'') =
     (\<lparr>q_ch = replicate 199 (demoTask ''a'') @ [demoTask ''c''],
       q_m = {''http://x/c|b|c'', ''http://x/a|b|a''}\<rparr>, True, None, 0)"
    using C[THEN conjunct2, THEN conjunct2, THEN conjunct2, THEN conjunct1] c2 l2(2) t(2)
    unfolding u tlr by (simp add: fullQueue_def)
  have 4: "put \<lparr>lockedAt = 1000000000, recvAfter = None, pick = ChanSend\<rparr> fullQueue (demoTask ''c'') =
     (fullQueue, False, Some (ErrPutTimeout (demoTask ''c'')), 408)"
    using D[THEN conjunct2, THEN conjunct2, THEN conjunct2, THEN conjunct2, THEN conjunct1] c2 l2(2)
    by simp
  show ?thesis using 1 2 3 4 by (intro conjI)
qed

text \<open>
  C4 as stated fails when \<open>put\<close> gets the lock only after its timer has fired, here
  eleven seconds after entry. The buffer holds one task of \<open>queueChSize\<close>, so the channel
  accepts a task at once; both cases of the \<open>select\<close> can proceed, and the same call
  returns the timeout error or enqueues the task.
\<close>

theorem put_contract_counterexample:
  "uid (request (demoTask ''c'')) \<notin> q_m demoQueue \<and>
   length (q_ch demoQueue) < queueChSize \<and>
   put \<lparr>lockedAt = 11000000000, recvAfter = None, pick = TimerFired\<rparr> demoQueue (demoTask ''c'') =
     (demoQueue, False, Some (ErrPutTimeout (demoTask ''c'')), 408) \<and>
   put \<lparr>lockedAt = 11000000000, recvAfter = None, pick = ChanSend\<rparr> demoQueue (demoTask ''c'') =
     (\<lparr>q_ch = [demoTask ''a'', demoTask ''c''], q_m = {''http://x/c|b|c'', ''http://x/a|b|a''}\<rparr>, True, None, 0)"
  by (simp add: put_def selectPut_def sendReadyAt_def timerReadyAt_def putInQueueTimeout_def
        queueChSize_def demoQueue_def demoTask_def uid_def StatusRequestTimeout_def)

section \<open>Proofs: shared data-mover\<close>

lemma registered_open_inv: "reachable s \<Longrightarrow> registered s \<noteq> [] \<longrightarrow> isOpen s"
proof (induction rule: reachable.induct)
  case r_init
  then show ?case by (simp add: initSDM_def registered_def)
next
  case (r_open s ok)
  then show ?case
    by (auto simp: Open_def isOpen_def registered_def DM_RegRecv_def DM_Open_def Let_def
             split: if_splits option.splits)
next
  case (r_close s)
  then show ?case
    by (auto simp: Close_def isOpen_def registered_def Let_def split: if_splits option.splits list.splits)
next
  case (r_reg s xid cb s')
  then show ?case
    by (auto simp: RegRecv_def isOpen_def registered_def split: if_splits option.splits)
next
  case (r_unreg s xid)
  then show ?case
    by (auto simp: UnregRecv_def isOpen_def registered_def split: if_splits option.splits)
qed

text \<open>
  C7. In every state of the shared data-mover (the initial one and every state its
  methods lead to): if at least one receiver is registered, \<open>Close\<close> returns the error
  "cannot close shared-dm: [xid, l]" for a registered job id \<open>xid\<close>, changes nothing and
  the transport stays open; if the transport is open and no receiver is registered,
  \<open>Close\<close> sets the receiver table to nil, closes the transport, unregisters it and
  returns nil.
\<close>

theorem Close_contract:
  assumes "reachable sdm"
  shows "(registered sdm \<noteq> [] \<longrightarrow>
            (\<exists>xid. xid \<in> set (registered sdm) \<and>
                   Close sdm = (sdm, Some (''cannot close shared-dm: ['' @ xid @ '', '' @
                                             itoa (int (length (registered sdm))) @ '']''))) \<and>
            isOpen (fst (Close sdm))) \<and>
         (isOpen sdm \<and> registered sdm = [] \<longrightarrow>
            Close sdm = (sdm\<lparr>rxcbs := None, dm := \<lparr>opened = False, regged = False\<rparr>\<rparr>, None) \<and>
            \<not> isOpen (fst (Close sdm)) \<and> registered (fst (Close sdm)) = [])"
proof -
  have a: "registered sdm \<noteq> [] \<longrightarrow> isOpen sdm" by (rule registered_open_inv[OF assms])
  have 1: "registered sdm \<noteq> [] \<longrightarrow>
            (\<exists>xid. xid \<in> set (registered sdm) \<and>
                   Close sdm = (sdm, Some (''cannot close shared-dm: ['' @ xid @ '', '' @
                                             itoa (int (length (registered sdm))) @ '']''))) \<and>
            isOpen (fst (Close sdm))"
  proof
    assume ne: "registered sdm \<noteq> []"
    then obtain k ks where k: "registered sdm = k # ks" by (cases "registered sdm") auto
    have o: "isOpen sdm" using a ne by simp
    have "Close sdm = (sdm, Some (closeError k (length (registered sdm))))"
      using o k by (simp add: Close_def Let_def)
    then show "(\<exists>xid. xid \<in> set (registered sdm) \<and>
                   Close sdm = (sdm, Some (''cannot close shared-dm: ['' @ xid @ '', '' @
                                             itoa (int (length (registered sdm))) @ '']''))) \<and>
            isOpen (fst (Close sdm))"
      using o k by (auto simp: closeError_def trname_def)
  qed
  have 2: "isOpen sdm \<and> registered sdm = [] \<longrightarrow>
            Close sdm = (sdm\<lparr>rxcbs := None, dm := \<lparr>opened = False, regged = False\<rparr>\<rparr>, None) \<and>
            \<not> isOpen (fst (Close sdm)) \<and> registered (fst (Close sdm)) = []"
    by (simp add: Close_def Let_def DM_Close_def DM_UnregRecv_def isOpen_def registered_def)
  show ?thesis using 1 2 by blast
qed

text \<open>C7 on an open transport with one receiver and on one with none.\<close>

theorem Close_contract_witness:
  "Close sdmBusy = (sdmBusy, Some ''cannot close shared-dm: [job-1, 1]'') \<and>
   Close sdmOpened = (\<lparr>dm = \<lparr>opened = False, regged = False\<rparr>, rxcbs = None\<rparr>, None)"
proof -
  have o: "sdmOpened = fst (Open True initSDM)"
    by (simp add: sdmOpened_def Open_def initSDM_def isOpen_def DM_RegRecv_def DM_Open_def Let_def)
  have ro: "reachable sdmOpened" unfolding o by (rule r_open[OF r_init])
  have "RegRecv ''job-1'' 7 sdmOpened = Inr sdmBusy"
    by (simp add: RegRecv_def sdmOpened_def sdmBusy_def isOpen_def)
  then have rb: "reachable sdmBusy" by (rule r_reg[OF ro])
  have i: "itoa 1 = ''1''" by (simp add: itoa_def digits.simps digit_def)
  have b: "registered sdmBusy = [''job-1'']" by (simp add: registered_def sdmBusy_def)
  have e: "registered sdmOpened = []" "isOpen sdmOpened"
    by (simp_all add: registered_def sdmOpened_def isOpen_def)
  from Close_contract[OF rb] Close_contract[OF ro] e
  show ?thesis unfolding b by (simp add: i sdmOpened_def)
qed

section \<open>Proofs: the range template\<close>

lemma wrap64_id: "- (2 ^ 63) \<le> x \<Longrightarrow> x < 2 ^ 63 \<Longrightarrow> wrap64 x = x"
  by (simp add: wrap64_def)

lemma indices_empty: "end < i \<Longrightarrow> indices i end step = {}"
  by (auto simp: indices_def)

lemma indices_step:
  assumes "1 \<le> step" "i \<le> end"
  shows "indices i end step = insert i (indices (i + step) end step)"
proof -
  have "\<And>j. i \<le> j \<Longrightarrow> (j - i) mod step = 0 \<Longrightarrow> j \<noteq> i \<Longrightarrow> i + step \<le> j"
  proof (rule ccontr)
    fix j assume a: "i \<le> j" "(j - i) mod step = 0" "j \<noteq> i" "\<not> i + step \<le> j"
    then have "0 < j - i" "j - i < step" by simp_all
    then have "(j - i) mod step = j - i" by simp
    then show False using a by simp
  qed
  moreover have "\<And>j. (j - (i + step)) mod step = (j - i) mod step"
  proof -
    fix j
    have "j - (i + step) = (j - i) - step" by simp
    then show "(j - (i + step)) mod step = (j - i) mod step" by (simp only: minus_mod_self2)
  qed
  ultimately show ?thesis using assms by (auto simp: indices_def)
qed

lemma rangeResult_empty:
  "end < i \<Longrightarrow> rangeResult base prefix suffix digitCount end step i objects = objects"
  by (simp add: rangeResult_def indices_empty)

lemma rangeResult_step:
  assumes "1 \<le> step" "i \<le> end"
  shows "rangeResult base prefix suffix digitCount end step (i + step)
           (objects(objnameOf prefix suffix digitCount i \<mapsto> base @ objnameOf prefix suffix digitCount i))
         = rangeResult base prefix suffix digitCount end step i objects"
  unfolding rangeResult_def indices_step[OF assms] by (rule ext) auto

lemma rangeLoop_result:
  assumes "1 \<le> step" "- (2 ^ 63) \<le> i" "end + step < 2 ^ 63"
  shows "rangeLoop base prefix suffix digitCount end step i objects =
           Some (rangeResult base prefix suffix digitCount end step i objects)"
  using assms(2)
proof (induction "nat (end + 1 - i)" arbitrary: i objects rule: less_induct)
  case less
  show ?case
  proof (cases "i \<le> end")
    case False
    then show ?thesis
      by (subst rangeLoop.simps) (simp add: rangeResult_empty)
  next
    case True
    have w: "wrap64 (i + step) = i + step"
      using True assms(1,3) less.prems by (intro wrap64_id) simp_all
    have m: "nat (end + 1 - (i + step)) < nat (end + 1 - i)" using True assms(1) by simp
    have lo: "- (2 ^ 63) \<le> i + step" using less.prems assms(1) by simp
    show ?thesis
      apply (subst rangeLoop.simps)
      using True w less.hyps[OF m lo] rangeResult_step[OF assms(1) True]
      by simp
  qed
qed

lemma below_ten:
  "d < 10 \<Longrightarrow> (d::nat) = 0 \<or> d = 1 \<or> d = 2 \<or> d = 3 \<or> d = 4 \<or> d = 5 \<or> d = 6 \<or> d = 7 \<or> d = 8 \<or> d = 9"
  by arith

lemma digitVal_digit: "d < 10 \<Longrightarrow> digitVal (digit d) = d"
  using below_ten[of d] by (auto simp: digitVal_def digit_def)

lemma decVal_snoc: "decVal (s @ [c]) = 10 * decVal s + digitVal c"
  by (simp add: decVal_def)

lemma decVal_digits: "decVal (digits k) = k"
proof (induction k rule: digits.induct)
  case (1 k)
  show ?case
  proof (cases "k < 10")
    case True
    then show ?thesis by (subst digits.simps) (simp add: decVal_def digitVal_digit)
  next
    case False
    then have "decVal (digits (k div 10)) = k div 10" using 1 by simp
    then show ?thesis using False
      by (subst digits.simps) (simp add: decVal_snoc digitVal_digit)
  qed
qed

lemma decVal_zeros: "decVal (replicate k CHR ''0'' @ s) = decVal s"
proof (induction k)
  case 0
  then show ?case by simp
next
  case (Suc k)
  have "foldl (\<lambda>a c. 10 * a + digitVal c) 0 (CHR ''0'' # replicate k CHR ''0'' @ s)
      = foldl (\<lambda>a c. 10 * a + digitVal c) 0 (replicate k CHR ''0'' @ s)"
    by (simp add: digitVal_def)
  then show ?case using Suc by (simp add: decVal_def)
qed

lemma decVal_zpad: "decVal (zpad w (digits k)) = k"
  by (simp add: zpad_def decVal_zeros decVal_digits)

lemma digit_not_minus: "d < 10 \<Longrightarrow> digit d \<noteq> CHR ''-''"
  using below_ten[of d] by (auto simp: digit_def)

lemma digits_hd: "digits k \<noteq> [] \<and> hd (digits k) \<noteq> CHR ''-''"
proof (induction k rule: digits.induct)
  case (1 k)
  show ?case
  proof (cases "k < 10")
    case True
    then show ?thesis by (subst (1 2) digits.simps) (simp add: digit_not_minus)
  next
    case False
    then show ?thesis using 1 by (subst (1 2) digits.simps) simp
  qed
qed

lemma zpad_hd: "zpad w (digits k) \<noteq> [] \<and> hd (zpad w (digits k)) \<noteq> CHR ''-''"
proof (cases "w - length (digits k)")
  case 0
  then show ?thesis using digits_hd[of k] by (simp add: zpad_def)
next
  case (Suc j)
  then show ?thesis by (simp add: zpad_def)
qed

lemma sprintf0d_inj:
  assumes "0 \<le> wid" "sprintf0d wid i = sprintf0d wid j"
  shows "i = j"
proof -
  have neg: "\<And>a b. a < 0 \<Longrightarrow> \<not> b < 0 \<Longrightarrow> sprintf0d wid a \<noteq> sprintf0d wid b"
  proof
    fix a b :: int assume a: "a < 0" "\<not> b < 0" "sprintf0d wid a = sprintf0d wid b"
    then have "CHR ''-'' # zpad (nat wid - 1) (digits (nat (- a))) = zpad (nat wid) (digits (nat b))"
      using assms(1) by (simp add: sprintf0d_def)
    then have "hd (zpad (nat wid) (digits (nat b))) = CHR ''-''" by (metis list.sel(1))
    then show False using zpad_hd by blast
  qed
  show ?thesis
  proof (cases "i < 0"; cases "j < 0")
    assume c: "i < 0" "j < 0"
    then have "zpad (nat wid - 1) (digits (nat (- i))) = zpad (nat wid - 1) (digits (nat (- j)))"
      using assms by (simp add: sprintf0d_def)
    then have "nat (- i) = nat (- j)" by (metis decVal_zpad)
    then show ?thesis using c by simp
  next
    assume c: "\<not> i < 0" "\<not> j < 0"
    then have "zpad (nat wid) (digits (nat i)) = zpad (nat wid) (digits (nat j))"
      using assms by (simp add: sprintf0d_def)
    then have "nat i = nat j" by (metis decVal_zpad)
    then show ?thesis using c by simp
  next
    assume "i < 0" "\<not> j < 0"
    then show ?thesis using neg assms(2) by blast
  next
    assume "\<not> i < 0" "j < 0"
    then show ?thesis using neg[of j i] assms(2) by simp
  qed
qed

lemma objnameOf_inj:
  assumes "0 \<le> wid" "objnameOf prefix suffix wid i = objnameOf prefix suffix wid j"
  shows "i = j"
  using assms sprintf0d_inj by (simp add: objnameOf_def)

lemma finite_indices: "finite (indices i e step)"
proof -
  have "indices i e step \<subseteq> {i..e}" by (auto simp: indices_def)
  then show ?thesis using finite_subset by blast
qed

lemma div_minus_step: "1 \<le> step \<Longrightarrow> (x - step) div step = x div step - (1::int)"
  using div_add_self2[of step "x - step"] by simp

lemma card_indices:
  assumes "1 \<le> step" "i \<le> e + step"
  shows "card (indices i e step) = nat ((e - i) div step + 1)"
  using assms(2)
proof (induction "nat (e + 1 - i)" arbitrary: i rule: less_induct)
  case less
  show ?case
  proof (cases "i \<le> e")
    case False
    then have "- step \<le> e - i" "e - i < 0" using less.prems by simp_all
    then have "(e - i + step) div step = 0" by (simp add: div_pos_pos_trivial)
    then have "(e - i) div step = - 1"
      using div_minus_step[OF assms(1), of "e - i + step"] by simp
    then show ?thesis using False by (simp add: indices_empty)
  next
    case True
    have m: "nat (e + 1 - (i + step)) < nat (e + 1 - i)" using True assms(1) by simp
    have le: "i + step \<le> e + step" using True by simp
    have ni: "i \<notin> indices (i + step) e step" using assms(1) by (simp add: indices_def)
    have "card (indices i e step) = Suc (card (indices (i + step) e step))"
      unfolding indices_step[OF assms(1) True] using ni finite_indices by simp
    also have "\<dots> = Suc (nat ((e - (i + step)) div step + 1))"
      using less.hyps[OF m le] by simp
    also have "(e - (i + step)) div step = (e - i) div step - 1"
      using div_minus_step[OF assms(1), of "e - i"] by (simp add: algebra_simps)
    finally have c: "card (indices i e step) = Suc (nat ((e - i) div step))" by simp
    have "0 \<le> (e - i) div step" using True assms(1) by (simp add: pos_imp_zdiv_nonneg_iff)
    then show ?thesis using c by simp
  qed
qed

lemma length_fixedDigits: "length (fixedDigits w k) = w"
  by (induction w arbitrary: k) simp_all

lemma fixedDigits_zero: "fixedDigits w 0 = replicate w CHR ''0''"
  by (induction w) (simp_all add: digit_def replicate_append_same)

lemma length_digits_pos: "0 < length (digits k)"
  using digits_hd[of k] by simp

lemma zpad_fixedDigits: "0 < w \<Longrightarrow> k < 10 ^ w \<Longrightarrow> zpad w (digits k) = fixedDigits w k"
proof (induction k arbitrary: w rule: digits.induct)
  case (1 k)
  obtain v where w: "w = Suc v" using "1.prems"(1) by (cases w) auto
  show ?case
  proof (cases "k < 10")
    case True
    then show ?thesis
      unfolding w by (subst digits.simps) (simp add: zpad_def fixedDigits_zero)
  next
    case False
    have kd: "k div 10 < 10 ^ v" using "1.prems"(2) w by (simp add: less_mult_imp_div_less mult.commute)
    have "0 < k div 10" using False by simp
    then have v: "0 < v" using kd by (cases v) auto
    have ih: "zpad v (digits (k div 10)) = fixedDigits v (k div 10)"
      using "1.IH"[OF False v kd] .
    have "zpad (Suc v) (digits (k div 10) @ [digit (k mod 10)]) = zpad v (digits (k div 10)) @ [digit (k mod 10)]"
      by (simp add: zpad_def)
    then show ?thesis unfolding w using False ih by (subst digits.simps) simp
  qed
qed

lemma of_char_digit: "d < 10 \<Longrightarrow> of_char (digit d) = 48 + d"
  using below_ten[of d] by (auto simp: digit_def)

lemma digit_less: "a < b \<Longrightarrow> b < 10 \<Longrightarrow> digit a < digit b"
  by (simp add: less_char_def of_char_digit)

lemma list_less_same_length_append:
  fixes u w :: string
  shows "u < w \<Longrightarrow> length w \<le> length u \<Longrightarrow> u @ v < w @ z"
  unfolding list_less_def by (rule lexord_sufI)

lemma list_less_prepend:
  fixes u w :: string
  shows "u < w \<Longrightarrow> x @ u < x @ w"
  unfolding list_less_def by (rule lexord_append_leftI)

lemma fixedDigits_less: "a < b \<Longrightarrow> b < 10 ^ w \<Longrightarrow> fixedDigits w a < fixedDigits w b"
proof (induction w arbitrary: a b)
  case 0
  then show ?case by simp
next
  case (Suc w)
  have bd: "b div 10 < 10 ^ w" using Suc.prems(2) by (simp add: less_mult_imp_div_less mult.commute)
  show ?case
  proof (cases "a div 10 < b div 10")
    case True
    have "fixedDigits w (a div 10) @ [digit (a mod 10)] < fixedDigits w (b div 10) @ [digit (b mod 10)]"
      by (rule list_less_same_length_append[OF Suc.IH[OF True bd]]) (simp add: length_fixedDigits)
    then show ?thesis by simp
  next
    case False
    have "a div 10 \<le> b div 10" using Suc.prems(1) by (simp add: div_le_mono)
    then have eq: "a div 10 = b div 10" using False by simp
    have "a = 10 * (a div 10) + a mod 10" "b = 10 * (b div 10) + b mod 10" by simp_all
    then have "a mod 10 < b mod 10" using Suc.prems(1) eq by linarith
    then have "digit (a mod 10) < digit (b mod 10)" by (rule digit_less) simp
    then have "[digit (a mod 10)] < [digit (b mod 10)]" by simp
    then have "fixedDigits w (b div 10) @ [digit (a mod 10)] < fixedDigits w (b div 10) @ [digit (b mod 10)]"
      by (rule list_less_prepend)
    then show ?thesis using eq by simp
  qed
qed

lemma objnameOf_less:
  assumes "0 \<le> i" "i < j" "j < 10 ^ nat wid" "0 \<le> wid"
  shows "objnameOf prefix suffix wid i < objnameOf prefix suffix wid j"
proof -
  have w: "0 < nat wid" using assms(1-3) by (cases "nat wid") auto
  have jn: "nat j < 10 ^ nat wid" using assms(1-3)
    by (metis nat_less_iff of_nat_numeral of_nat_power order_le_less_trans less_imp_le)
  have ij: "nat i < nat j" using assms(1,2) by simp
  have si: "sprintf0d wid i = fixedDigits (nat wid) (nat i)"
    using assms zpad_fixedDigits[OF w, of "nat i"] ij jn by (simp add: sprintf0d_def)
  have sj: "sprintf0d wid j = fixedDigits (nat wid) (nat j)"
    using assms zpad_fixedDigits[OF w jn] by (simp add: sprintf0d_def)
  have "fixedDigits (nat wid) (nat i) < fixedDigits (nat wid) (nat j)"
    by (rule fixedDigits_less[OF ij jn])
  then have "fixedDigits (nat wid) (nat i) @ suffix < fixedDigits (nat wid) (nat j) @ suffix"
    by (rule list_less_same_length_append) (simp add: length_fixedDigits)
  then show ?thesis unfolding objnameOf_def si sj by (rule list_less_prepend)
qed

lemma dom_rangeResult:
  "dom (rangeResult base prefix suffix digitCount end step i Map.empty)
     = objnameOf prefix suffix digitCount ` indices i end step"
  by (auto simp: rangeResult_def dom_def)

text \<open>
  C6 (amended). For the values \<open>prefix, suffix, A, B, S\<close> and the digit width of a
  template with \<open>S \<ge> 1\<close>, \<open>A \<le> B\<close>, a width that is not negative and indices within
  the 64-bit integers (\<open>B + S\<close> does not overflow), the loop ends and generates exactly
  \<open>floor((B - A) / S) + 1\<close> objects, one per index \<open>A, A + S, ...\<close> up to \<open>B\<close>, each
  named \<open>prefix\<close>, the index zero-padded to the width, \<open>suffix\<close>, with the link
  \<open>base\<close> followed by the name. When moreover \<open>A \<ge> 0\<close> and \<open>B\<close> has no more digits
  than the width, the names are ordered, as strings, like their indices.
\<close>

theorem rangeObjects_template:
  assumes "1 \<le> step" "start \<le> end" "- (2 ^ 63) \<le> start" "end + step < 2 ^ 63" "0 \<le> digitCount"
  shows "\<exists>objects.
           rangeObjects base prefix suffix start end step digitCount = Some objects \<and>
           dom objects = objnameOf prefix suffix digitCount ` indices start end step \<and>
           card (dom objects) = nat ((end - start) div step + 1) \<and>
           (\<forall>i\<in>indices start end step.
              objects (objnameOf prefix suffix digitCount i)
                = Some (base @ objnameOf prefix suffix digitCount i)) \<and>
           (0 \<le> start \<and> end < 10 ^ nat digitCount \<longrightarrow>
              (\<forall>i\<in>indices start end step. \<forall>j\<in>indices start end step.
                 i < j \<longrightarrow> objnameOf prefix suffix digitCount i < objnameOf prefix suffix digitCount j))"
proof -
  let ?objs = "rangeResult base prefix suffix digitCount end step start Map.empty"
  let ?name = "objnameOf prefix suffix digitCount"
  have r: "rangeObjects base prefix suffix start end step digitCount = Some ?objs"
    unfolding rangeObjects_def by (rule rangeLoop_result[OF assms(1,3,4)])
  have d: "dom ?objs = ?name ` indices start end step" by (rule dom_rangeResult)
  have inj: "inj_on ?name (indices start end step)"
    using objnameOf_inj[OF assms(5)] by (auto simp: inj_on_def)
  have "card (dom ?objs) = card (indices start end step)"
    unfolding d by (rule card_image[OF inj])
  also have "\<dots> = nat ((end - start) div step + 1)"
    using assms(1,2) by (intro card_indices) simp_all
  finally have c: "card (dom ?objs) = nat ((end - start) div step + 1)" .
  have v: "\<forall>i\<in>indices start end step. ?objs (?name i) = Some (base @ ?name i)"
    by (simp add: rangeResult_def)
  have o: "0 \<le> start \<and> end < 10 ^ nat digitCount \<longrightarrow>
              (\<forall>i\<in>indices start end step. \<forall>j\<in>indices start end step.
                 i < j \<longrightarrow> ?name i < ?name j)"
  proof (intro impI ballI)
    fix i j
    assume a: "0 \<le> start \<and> end < 10 ^ nat digitCount"
      and i: "i \<in> indices start end step" and j: "j \<in> indices start end step" and ij: "i < j"
    have "0 \<le> i" using a i by (simp add: indices_def)
    moreover have "j < 10 ^ nat digitCount" using a j by (simp add: indices_def)
    ultimately show "?name i < ?name j" using ij assms(5) by (intro objnameOf_less)
  qed
  show ?thesis using r d c v o by blast
qed

text \<open>
  C6 (amended) on the template \<open>img-{001..003}.jpg\<close> with the base \<open>http://x/\<close>.
\<close>

theorem rangeObjects_template_witness:
  "\<exists>objects.
     rangeObjects ''http://x/'' ''img-'' ''.jpg'' 1 3 1 3 = Some objects \<and>
     card (dom objects) = 3 \<and>
     objects ''img-001.jpg'' = Some ''http://x/img-001.jpg'' \<and>
     objects ''img-003.jpg'' = Some ''http://x/img-003.jpg'' \<and>
     ''img-001.jpg'' < ''img-003.jpg''"
proof -
  have n1: "objnameOf ''img-'' ''.jpg'' 3 1 = ''img-001.jpg''"
    by (simp add: objnameOf_def sprintf0d_def zpad_def digits.simps digit_def numeral_2_eq_2)
  have n3: "objnameOf ''img-'' ''.jpg'' 3 3 = ''img-003.jpg''"
    by (simp add: objnameOf_def sprintf0d_def zpad_def digits.simps digit_def numeral_2_eq_2)
  have i1: "1 \<in> indices 1 3 1" and i3: "3 \<in> indices 1 3 1" by (simp_all add: indices_def)
  have h: "(1::int) \<le> 1" "(1::int) \<le> 3" "- (2 ^ 63) \<le> (1::int)" "(3::int) + 1 < 2 ^ 63" "(0::int) \<le> 3"
    by simp_all
  from rangeObjects_template[OF h, of "''http://x/''" "''img-''" "''.jpg''"]
  obtain objects where o: "rangeObjects ''http://x/'' ''img-'' ''.jpg'' 1 3 1 3 = Some objects"
      "card (dom objects) = nat ((3 - 1) div 1 + 1)"
      "\<forall>i\<in>indices 1 3 1. objects (objnameOf ''img-'' ''.jpg'' 3 i) = Some (''http://x/'' @ objnameOf ''img-'' ''.jpg'' 3 i)"
      "0 \<le> (1::int) \<and> (3::int) < 10 ^ nat 3 \<longrightarrow>
              (\<forall>i\<in>indices 1 3 1. \<forall>j\<in>indices 1 3 1.
                 i < j \<longrightarrow> objnameOf ''img-'' ''.jpg'' 3 i < objnameOf ''img-'' ''.jpg'' 3 j)"
    by blast
  have "objnameOf ''img-'' ''.jpg'' 3 1 < objnameOf ''img-'' ''.jpg'' 3 3"
    using o(4) i1 i3 by simp
  then have lt: "''img-001.jpg'' < ''img-003.jpg''" unfolding n1 n3 .
  have "objects ''img-001.jpg'' = Some ''http://x/img-001.jpg''"
    using o(3) i1 n1 by force
  moreover have "objects ''img-003.jpg'' = Some ''http://x/img-003.jpg''"
    using o(3) i3 n3 by force
  moreover have "card (dom objects) = 3" using o(2) by simp
  ultimately show ?thesis using o(1) lt by blast
qed

text \<open>
  C6 as stated fails on the template \<open>{8..12}\<close>, whose digit width is 1: the objects
  \<open>8\<close> and \<open>10\<close> are generated, and the name \<open>10\<close> sorts before the name
  \<open>8\<close>.
\<close>

theorem rangeObjects_template_counterexample:
  "map_option (\<lambda>objects. (objects ''8'', objects ''10''))
      (rangeObjects ''http://x/'' '''' '''' 8 12 1 1)
     = Some (Some ''http://x/8'', Some ''http://x/10'') \<and>
   (8::int) < 10 \<and> ''10'' < ''8''"
  by (simp add: rangeObjects_def rangeLoop.simps wrap64_def objnameOf_def sprintf0d_def zpad_def
        digits.simps digit_def)

section \<open>Proofs: notification fabric\<close>

lemma hasKey_uuids: "hasKey l k = (k \<in> uuids l)"
  by (simp add: hasKey_def uuids_def)

lemma uuids_setKey: "uuids (setKey k v l) = uuids l"
proof -
  have "map fst (setKey k v l) = map fst l"
    by (induction l) (simp_all add: setKey_def)
  then have "set (map fst (setKey k v l)) = set (map fst l)" by simp
  then show ?thesis by (simp add: uuids_def)
qed

lemma uuids_delKey: "uuids (delKey k l) = uuids l - {k}"
  by (auto simp: uuids_def delKey_def)

lemma uuids_l_add: "uuids (fst (l_add l x)) = insert (nl_uuid x) (uuids l)"
  by (auto simp: l_add_def hasKey_uuids) (auto simp: uuids_def)

lemma snd_l_add: "snd (l_add l x) = (nl_uuid x \<in> uuids l)"
  by (simp add: l_add_def hasKey_uuids)

lemma uuids_l_del: "uuids (fst (l_del l x)) = uuids l - {nl_uuid x}"
  by (auto simp: l_del_def hasKey_uuids uuids_delKey)

lemma snd_l_del: "snd (l_del l x) = (nl_uuid x \<in> uuids l)"
  by (simp add: l_del_def hasKey_uuids)

lemma uuids_append: "uuids (l @ [(k, v)]) = insert k (uuids l)"
  by (simp add: uuids_def)

lemma uuids_mergeStep: "uuids (mergeStep now l x) = insert (nl_uuid x) (uuids l)"
  by (auto simp: mergeStep_def hasKey_uuids uuids_append)

lemma uuids_l_merge: "uuids (l_merge now l xs) = uuids l \<union> nl_uuid ` set xs"
  unfolding l_merge_def
  by (induction xs arbitrary: l) (auto simp: uuids_mergeStep)

lemma writeBack_uuids [simp]:
  "uuids (nls (writeBack x nf)) = uuids (nls nf)" "uuids (fin (writeBack x nf)) = uuids (fin nf)"
  by (simp_all add: writeBack_def uuids_setKey)

lemma uuid_SetAddedTime [simp]: "nl_uuid (SetAddedTime now x) = nl_uuid x"
  by (simp add: SetAddedTime_def)

lemma uuid_SetStats [simp]: "nl_uuid (SetStats t s x) = nl_uuid x"
  by (simp add: SetStats_def)

lemma uuid_SetErr [simp]: "nl_uuid (SetErr e x) = nl_uuid x"
  by (simp add: SetErr_def)

lemma uuid_SetAborted [simp]: "nl_uuid (SetAborted x) = nl_uuid x"
  by (simp add: SetAborted_def)

lemma uuid_MarkFinished [simp]: "nl_uuid (MarkFinished t x) = nl_uuid x"
  by (simp add: MarkFinished_def)

lemma uuid_Callback [simp]: "nl_uuid (Callback t x) = nl_uuid x"
  by (simp add: Callback_def)

lemma uuid_markFinished [simp]: "nl_uuid (fst (markFinished x tsi e a)) = nl_uuid x"
  by (simp add: markFinished_def Let_def split: option.splits)

lemma notifs_done_uuids:
  "uuids (nls (notifs_done now nf x)) = uuids (nls nf) - {nl_uuid x}"
  "uuids (fin (notifs_done now nf x)) =
     (if nl_uuid x \<in> uuids (nls nf) then insert (nl_uuid x) (uuids (fin nf)) else uuids (fin nf))"
  by (auto simp: notifs_done_def notifs_del_def Let_def snd_l_del snd_l_add uuids_l_del uuids_l_add
        uuids_setKey)








lemma uuid_syncStep [simp]: "nl_uuid (fst (syncStep now p st res)) = nl_uuid (fst st)"
  by (simp add: syncStep_def Let_def split: option.splits)

lemma uuid_foldl_syncStep [simp]:
  "nl_uuid (fst (foldl (syncStep now p) st rs)) = nl_uuid (fst st)"
  by (induction rs arbitrary: st) simp_all


lemma syncStats_fin_mono:
  "uuids (fin nf) \<subseteq> uuids (fin (syncStats now p nf x env))"
  by (auto simp: syncStats_def Let_def notifs_done_uuids)




















section \<open>Proofs: serialization of the notification fabric\<close>

lemma hasKey_map_of: "hasKey l k = (map_of l k \<noteq> None)"
  by (simp add: hasKey_def map_of_eq_None_iff)

lemma map_of_mergeStep:
  "map_of (mergeStep now l x) u =
     (case map_of l u of
        Some e \<Rightarrow> Some e
      | None \<Rightarrow> if nl_uuid x = u then Some (SetAddedTime now x) else None)"
  by (auto simp: mergeStep_def hasKey_map_of map_add_def split: option.splits)

lemma map_of_l_merge:
  "map_of (l_merge now l xs) u =
     (case map_of l u of
        Some e \<Rightarrow> Some e
      | None \<Rightarrow> map_option (SetAddedTime now) (find (\<lambda>x. nl_uuid x = u) xs))"
  unfolding l_merge_def
proof (induction xs arbitrary: l)
  case Nil
  then show ?case by (simp split: option.splits)
next
  case (Cons x xs)
  show ?case
    by (simp add: Cons.IH map_of_mergeStep split: option.splits)
qed

lemma decoded_Some:
  assumes "codecKeeps dec enc"
  shows "\<exists>y. decoded K dec enc x = Some y \<and> nl_uuid y = nl_uuid x \<and> nl_kind y = nl_kind x \<and>
             nl_variant y = variantOf K (nl_kind x)"
  using assms
  by (simp add: codecKeeps_def decoded_def nlMsg_UnmarshalJSON_def nlMsg_MarshalJSON_def)

lemma unmarshalMsgs_marshal:
  assumes "codecKeeps dec enc"
  shows "unmarshalMsgs K dec (map (\<lambda>e. nlMsg_MarshalJSON enc (snd e)) l)
           = Some (map (\<lambda>e. the (decoded K dec enc (snd e))) l)"
proof (induction l)
  case Nil
  then show ?case by simp
next
  case (Cons e l)
  obtain y where "decoded K dec enc (snd e) = Some y"
    using decoded_Some[OF assms] by blast
  then show ?case using Cons by (simp add: decoded_def)
qed

lemma find_decoded:
  assumes "codecKeeps dec enc" "list_all (\<lambda>e. nl_uuid (snd e) = fst e) l"
  shows "find (\<lambda>x. nl_uuid x = u) (map (\<lambda>e. the (decoded K dec enc (snd e))) l)
           = map_option (\<lambda>x. the (decoded K dec enc x)) (map_of l u)"
  using assms(2)
proof (induction l)
  case Nil
  then show ?case by simp
next
  case (Cons e l)
  obtain y where y: "decoded K dec enc (snd e) = Some y" "nl_uuid y = nl_uuid (snd e)"
    using decoded_Some[OF assms(1)] by blast
  obtain k v where e: "e = (k, v)" by (cases e)
  show ?case using Cons y e by auto
qed

lemma keyed_all: "keyedByUuid l \<Longrightarrow> list_all (\<lambda>e. nl_uuid (snd e) = fst e) l"
  by (simp add: keyedByUuid_def)

lemma keyed_lookup: "keyedByUuid l \<Longrightarrow> map_of l u = Some x \<Longrightarrow> nl_uuid x = u"
  by (auto simp: keyedByUuid_def list_all_iff dest: map_of_SomeD)

lemma merged_tables:
  assumes "codecKeeps dec enc" "keyedByUuid l"
  shows "map_of (l_merge now mine (map (\<lambda>e. the (decoded K dec enc (snd e))) l)) u
           = mergedEntry now mine (decoded K dec enc) l u"
proof (cases "map_of l u")
  case None
  then show ?thesis
    by (simp add: map_of_l_merge find_decoded[OF assms(1) keyed_all[OF assms(2)]] mergedEntry_def
          split: option.splits)
next
  case (Some x)
  obtain y where "decoded K dec enc x = Some y" using decoded_Some[OF assms(1)] by blast
  then show ?thesis using Some
    by (simp add: map_of_l_merge find_decoded[OF assms(1) keyed_all[OF assms(2)]] mergedEntry_def
          split: option.splits)
qed

lemma merge_guard:
  "(if length xs > 0 then nf\<lparr>nls := l_merge now (nls nf) xs\<rparr> else nf)
     = nf\<lparr>nls := l_merge now (nls nf) xs\<rparr>"
  "(if length xs > 0 then nf\<lparr>fin := l_merge now (fin nf) xs\<rparr> else nf)
     = nf\<lparr>fin := l_merge now (fin nf) xs\<rparr>"
  by (cases xs; simp add: l_merge_def)+

lemma UnmarshalJSON_MarshalJSON:
  assumes "codecKeeps dec enc"
  shows "UnmarshalJSON K dec now r (MarshalJSON enc nf) =
           Some (r\<lparr>nls := l_merge now (nls r) (map (\<lambda>e. the (decoded K dec enc (snd e))) (nls nf)),
                   fin := l_merge now (fin r) (map (\<lambda>e. the (decoded K dec enc (snd e))) (fin nf))\<rparr>)"
proof -
  have rs: "unmarshalMsgs K dec (js_Running (MarshalJSON enc nf))
      = Some (map (\<lambda>e. the (decoded K dec enc (snd e))) (nls nf))"
    by (simp add: MarshalJSON_def unmarshalMsgs_marshal[OF assms])
  have fs: "unmarshalMsgs K dec (js_Finished (MarshalJSON enc nf))
      = Some (map (\<lambda>e. the (decoded K dec enc (snd e))) (fin nf))"
    by (simp add: MarshalJSON_def unmarshalMsgs_marshal[OF assms])
  show ?thesis
    unfolding UnmarshalJSON_def rs fs Let_def option.case merge_guard by simp
qed

lemma uuids_decoded:
  assumes "codecKeeps dec enc" "keyedByUuid l"
  shows "nl_uuid ` set (map (\<lambda>e. the (decoded K dec enc (snd e))) l) = uuids l"
proof -
  have "\<And>e. e \<in> set l \<Longrightarrow> nl_uuid (the (decoded K dec enc (snd e))) = fst e"
  proof -
    fix e assume e: "e \<in> set l"
    obtain y where "decoded K dec enc (snd e) = Some y" "nl_uuid y = nl_uuid (snd e)"
      using decoded_Some[OF assms(1)] by blast
    moreover have "nl_uuid (snd e) = fst e" using e assms(2) by (simp add: keyedByUuid_def list_all_iff)
    ultimately show "nl_uuid (the (decoded K dec enc (snd e))) = fst e" by simp
  qed
  then have "(\<lambda>e. nl_uuid (the (decoded K dec enc (snd e)))) ` set l = fst ` set l"
    by (intro image_cong refl)
  then show ?thesis by (simp add: uuids_def image_image)
qed

lemma asOptStr_optStrJSON: "asOptStr (optStrJSON s) = Some s"
  by (cases s) (simp_all add: optStrJSON_def)

lemma asNotifier_notifierJSON:
  "asNotifier (notifierJSON x i) = Some (i, i \<in> nl_finished x, nl_stats x i)"
  by (simp add: notifierJSON_def jmember_def asOptStr_optStrJSON)

lemma those_notifiers:
  "those (map (asNotifier \<circ> notifierJSON x) is) =
     Some (map (\<lambda>i. (i, i \<in> nl_finished x, nl_stats x i)) is)"
  by (induction "is") (simp_all add: asNotifier_notifierJSON)

lemma map_of_notifiers:
  "map_of (map (\<lambda>i. (i, f i)) is) i = (if i \<in> set is then Some (f i) else None)"
  by (induction "is") auto

lemma nl_Unmarshal_nl_Marshal:
  "nl_Unmarshal v (nl_Marshal x) =
     Some (x\<lparr>nl_variant := v,
             nl_finished := nl_finished x \<inter> set (nl_srcs x),
             nl_stats := nl_stats x |` set (nl_srcs x)\<rparr>)"
proof -
  define ns0 where "ns0 = map (\<lambda>i. (i, i \<in> nl_finished x, nl_stats x i)) (nl_srcs x)"
  have n: "those (map (asNotifier \<circ> notifierJSON x) (nl_srcs x)) = Some ns0"
    by (simp add: those_notifiers ns0_def)
  have u: "nl_Unmarshal v (nl_Marshal x) =
      Some \<lparr>nl_variant = v, nl_uuid = nl_uuid x, nl_kind = nl_kind x, nl_srcs = map fst ns0,
            nl_finished = set (map fst (filter (\<lambda>n. fst (snd n)) ns0)),
            nl_stats = (\<lambda>i. Option.bind (map_of ns0 i) snd),
            nl_aborted = nl_aborted x, nl_err = nl_err x, nl_added = nl_added x,
            nl_end = nl_end x\<rparr>"
    unfolding nl_Marshal_def nl_Unmarshal.simps
    by (simp add: jmember_def asOptStr_optStrJSON n)
  have s: "map fst ns0 = nl_srcs x"
    by (simp add: ns0_def comp_def)
  have f: "set (map fst (filter (\<lambda>n. fst (snd n)) ns0)) = nl_finished x \<inter> set (nl_srcs x)"
    unfolding ns0_def by (auto simp: image_iff)
  have t: "(\<lambda>i. Option.bind (map_of ns0 i) snd) = nl_stats x |` set (nl_srcs x)"
    unfolding ns0_def by (rule ext) (simp add: map_of_notifiers restrict_map_def)
  have r: "x\<lparr>nl_variant := v, nl_finished := A, nl_stats := B\<rparr> =
      \<lparr>nl_variant = v, nl_uuid = nl_uuid x, nl_kind = nl_kind x, nl_srcs = nl_srcs x,
       nl_finished = A, nl_stats = B, nl_aborted = nl_aborted x, nl_err = nl_err x,
       nl_added = nl_added x, nl_end = nl_end x\<rparr>" for A B
    by (cases x) simp
  show ?thesis unfolding u s f t r by (rule refl)
qed

lemma codecKeeps_json: "codecKeeps nl_Unmarshal nl_Marshal"
  by (simp add: codecKeeps_def nl_Unmarshal_nl_Marshal)

lemma mergedEntry_present:
  "map_of mine u = Some e \<Longrightarrow> mergedEntry now mine f incoming u = Some e"
  by (simp add: mergedEntry_def)

lemma mergedEntry_absent:
  "map_of mine u = None \<Longrightarrow> map_of incoming u = None \<Longrightarrow> mergedEntry now mine f incoming u = None"
  by (simp add: mergedEntry_def)

lemma mergedEntry_new:
  assumes "codecKeeps dec enc" "keyedByUuid incoming"
    and "map_of mine u = None" "map_of incoming u = Some x"
  shows "\<exists>y. mergedEntry now mine (decoded K dec enc) incoming u = Some y \<and> nl_uuid y = u \<and>
             nl_kind y = nl_kind x \<and> nl_added y = now \<and>
             nl_variant y =
               (if nl_kind x = ActQueryObjects K then NotifListenerQuery
                else if nl_kind x = DlTypeMulti K \<or> nl_kind x = DlTypeCloud K \<or>
                        nl_kind x = DlTypeSingle K \<or> nl_kind x = DlTypeRange K
                     then NotifDownloadListerner
                else NotifXactListener)"
proof -
  obtain y where y: "decoded K dec enc x = Some y" "nl_uuid y = nl_uuid x" "nl_kind y = nl_kind x"
      "nl_variant y = variantOf K (nl_kind x)"
    using decoded_Some[OF assms(1)] by blast
  have m: "mergedEntry now mine (decoded K dec enc) incoming u = Some (SetAddedTime now y)"
    using assms(3,4) y(1) by (simp add: mergedEntry_def)
  have u: "nl_uuid x = u" by (rule keyed_lookup[OF assms(2,4)])
  show ?thesis
    unfolding m using y(2,3,4) u
    by (simp add: SetAddedTime_def variantOf_def isDLType_def)
qed

text \<open>
  C8. The tables of \<open>nf\<close>, keyed by the uuid of their listeners, are serialized, and the
  result is deserialized into a receiver \<open>r\<close> at the time \<open>now\<close>. The deserialization
  succeeds, and in each of the two tables of the result
  \<^item> a uuid of \<open>r\<close> keeps the entry of \<open>r\<close>: the incoming listener of that uuid is
    dropped;
  \<^item> a uuid that is neither in \<open>r\<close> nor in the serialized table is absent;
  \<^item> a uuid that is absent from \<open>r\<close> and in the serialized table holds a listener of this
    uuid, with the kind of the original, the added-time \<open>now\<close>, and the variant that the
    kind tag selects: the query listener for \<open>ActQueryObjects\<close>, the download listener for
    the four download kinds, the xaction listener for every other kind.

  Deserialized into freshly initialised tables, the result has the uuids of the original
  tables. The JSON form of a listener is the one modelled from the spec.
\<close>

theorem notifs_json_roundtrip:
  assumes "keyedByUuid (nls nf)" "keyedByUuid (fin nf)"
  shows "\<exists>r'. UnmarshalJSON K nl_Unmarshal now r (MarshalJSON nl_Marshal nf) = Some r' \<and>
     (\<forall>u e. map_of (nls r) u = Some e \<longrightarrow> map_of (nls r') u = Some e) \<and>
     (\<forall>u. map_of (nls r) u = None \<and> map_of (nls nf) u = None \<longrightarrow> map_of (nls r') u = None) \<and>
     (\<forall>u x. map_of (nls r) u = None \<and> map_of (nls nf) u = Some x \<longrightarrow>
        (\<exists>y. map_of (nls r') u = Some y \<and> nl_uuid y = u \<and> nl_kind y = nl_kind x \<and>
             nl_added y = now \<and>
             nl_variant y =
               (if nl_kind x = ActQueryObjects K then NotifListenerQuery
                else if nl_kind x = DlTypeMulti K \<or> nl_kind x = DlTypeCloud K \<or>
                        nl_kind x = DlTypeSingle K \<or> nl_kind x = DlTypeRange K
                     then NotifDownloadListerner
                else NotifXactListener))) \<and>
     (\<forall>u e. map_of (fin r) u = Some e \<longrightarrow> map_of (fin r') u = Some e) \<and>
     (\<forall>u. map_of (fin r) u = None \<and> map_of (fin nf) u = None \<longrightarrow> map_of (fin r') u = None) \<and>
     (\<forall>u x. map_of (fin r) u = None \<and> map_of (fin nf) u = Some x \<longrightarrow>
        (\<exists>y. map_of (fin r') u = Some y \<and> nl_uuid y = u \<and> nl_kind y = nl_kind x \<and>
             nl_added y = now \<and>
             nl_variant y =
               (if nl_kind x = ActQueryObjects K then NotifListenerQuery
                else if nl_kind x = DlTypeMulti K \<or> nl_kind x = DlTypeCloud K \<or>
                        nl_kind x = DlTypeSingle K \<or> nl_kind x = DlTypeRange K
                     then NotifDownloadListerner
                else NotifXactListener))) \<and>
     (r = notifs_init \<longrightarrow> uuids (nls r') = uuids (nls nf) \<and> uuids (fin r') = uuids (fin nf))"
proof -
  note ck = codecKeeps_json
  let ?d = "decoded K nl_Unmarshal nl_Marshal"
  let ?rs = "map (\<lambda>e. the (?d (snd e))) (nls nf)"
  let ?fs = "map (\<lambda>e. the (?d (snd e))) (fin nf)"
  define r' where "r' = r\<lparr>nls := l_merge now (nls r) ?rs, fin := l_merge now (fin r) ?fs\<rparr>"
  have u: "UnmarshalJSON K nl_Unmarshal now r (MarshalJSON nl_Marshal nf) = Some r'"
    unfolding r'_def by (rule UnmarshalJSON_MarshalJSON[OF ck])
  have a: "map_of (nls r') u = mergedEntry now (nls r) ?d (nls nf) u" for u
    by (simp add: r'_def merged_tables[OF ck assms(1)])
  have b: "map_of (fin r') u = mergedEntry now (fin r) ?d (fin nf) u" for u
    by (simp add: r'_def merged_tables[OF ck assms(2)])
  have n1: "\<forall>u e. map_of (nls r) u = Some e \<longrightarrow> map_of (nls r') u = Some e"
    unfolding a by (intro allI impI) (rule mergedEntry_present)
  have n2: "\<forall>u. map_of (nls r) u = None \<and> map_of (nls nf) u = None \<longrightarrow> map_of (nls r') u = None"
    unfolding a by (intro allI impI, elim conjE) (rule mergedEntry_absent)
  have n3: "\<forall>u x. map_of (nls r) u = None \<and> map_of (nls nf) u = Some x \<longrightarrow>
        (\<exists>y. map_of (nls r') u = Some y \<and> nl_uuid y = u \<and> nl_kind y = nl_kind x \<and>
             nl_added y = now \<and>
             nl_variant y =
               (if nl_kind x = ActQueryObjects K then NotifListenerQuery
                else if nl_kind x = DlTypeMulti K \<or> nl_kind x = DlTypeCloud K \<or>
                        nl_kind x = DlTypeSingle K \<or> nl_kind x = DlTypeRange K
                     then NotifDownloadListerner
                else NotifXactListener))"
    unfolding a by (intro allI impI, elim conjE) (rule mergedEntry_new[OF ck assms(1)])
  have f1: "\<forall>u e. map_of (fin r) u = Some e \<longrightarrow> map_of (fin r') u = Some e"
    unfolding b by (intro allI impI) (rule mergedEntry_present)
  have f2: "\<forall>u. map_of (fin r) u = None \<and> map_of (fin nf) u = None \<longrightarrow> map_of (fin r') u = None"
    unfolding b by (intro allI impI, elim conjE) (rule mergedEntry_absent)
  have f3: "\<forall>u x. map_of (fin r) u = None \<and> map_of (fin nf) u = Some x \<longrightarrow>
        (\<exists>y. map_of (fin r') u = Some y \<and> nl_uuid y = u \<and> nl_kind y = nl_kind x \<and>
             nl_added y = now \<and>
             nl_variant y =
               (if nl_kind x = ActQueryObjects K then NotifListenerQuery
                else if nl_kind x = DlTypeMulti K \<or> nl_kind x = DlTypeCloud K \<or>
                        nl_kind x = DlTypeSingle K \<or> nl_kind x = DlTypeRange K
                     then NotifDownloadListerner
                else NotifXactListener))"
    unfolding b by (intro allI impI, elim conjE) (rule mergedEntry_new[OF ck assms(2)])
  have c: "r = notifs_init \<longrightarrow> uuids (nls r') = uuids (nls nf) \<and> uuids (fin r') = uuids (fin nf)"
  proof
    assume r: "r = notifs_init"
    have e: "nls r = []" "fin r = []" using r by (simp_all add: notifs_init_def)
    have ue: "uuids [] = {}" by (simp add: uuids_def)
    have 1: "uuids (nls r') = uuids (nls nf)"
      using uuids_decoded[OF ck assms(1), of K] e(1) ue by (simp add: r'_def uuids_l_merge)
    have 2: "uuids (fin r') = uuids (fin nf)"
      using uuids_decoded[OF ck assms(2), of K] e(2) ue by (simp add: r'_def uuids_l_merge)
    show "uuids (nls r') = uuids (nls nf) \<and> uuids (fin r') = uuids (fin nf)"
      using 1 2 by (rule conjI)
  qed
  show ?thesis
    apply (rule exI[of _ r'])
    apply (intro conjI)
           apply (rule u)
          apply (rule n1)
         apply (rule n2)
        apply (rule n3)
       apply (rule f1)
      apply (rule f2)
     apply (rule f3)
    apply (rule c)
    done
qed

text \<open>
  C8 on a state with a running xaction listener and a finished download listener:
  deserialized into empty tables, and into tables that already hold both uuids.
\<close>

theorem notifs_json_roundtrip_witness:
  "(\<exists>r'. UnmarshalJSON demoKinds nl_Unmarshal 42 notifs_init (MarshalJSON nl_Marshal nfMixed) = Some r' \<and>
         uuids (nls r') = {''u1''} \<and> uuids (fin r') = {''u2''} \<and>
         map_option (\<lambda>y. (nl_kind y, nl_variant y, nl_added y)) (map_of (nls r') ''u1'')
           = Some (''rebalance'', NotifXactListener, 42) \<and>
         map_option (\<lambda>y. (nl_kind y, nl_variant y, nl_added y)) (map_of (fin r') ''u2'')
           = Some (''single'', NotifDownloadListerner, 42)) \<and>
   (\<exists>r'. UnmarshalJSON demoKinds nl_Unmarshal 42 nfRun (MarshalJSON nl_Marshal nfMixed) = Some r' \<and>
         map_of (fin r') ''u2'' = Some (demoNL ''u2'') \<and>
         map_option nl_added (map_of (nls r') ''u1'') = Some 0)"
proof -
  have k1: "keyedByUuid (nls nfMixed)" and k2: "keyedByUuid (fin nfMixed)"
    by (simp_all add: keyedByUuid_def nfMixed_def demoNL_def)
  have m1: "map_of (nls nfMixed) ''u1'' = Some (demoNL ''u1'')"
    by (simp add: nfMixed_def)
  have m2: "map_of (fin nfMixed) ''u2''
      = Some ((demoNL ''u2'')\<lparr>nl_variant := NotifDownloadListerner, nl_kind := ''single''\<rparr>)"
    by (simp add: nfMixed_def)
  have i1: "map_of (nls notifs_init) ''u1'' = None" and i2: "map_of (fin notifs_init) ''u2'' = None"
    by (simp_all add: notifs_init_def)
  have un: "uuids (nls nfMixed) = {''u1''}" "uuids (fin nfMixed) = {''u2''}"
    by (simp_all add: uuids_def nfMixed_def)
  have p1: "map_of (nls nfRun) ''u1'' = Some (demoNL ''u1'')"
    and p2: "map_of (fin nfRun) ''u2'' = Some (demoNL ''u2'')"
    by (simp_all add: nfRun_def)
  note T1 = notifs_json_roundtrip[OF k1 k2, of demoKinds 42 notifs_init]
  note T2 = notifs_json_roundtrip[OF k1 k2, of demoKinds 42 nfRun]
  have A: "\<exists>r'. UnmarshalJSON demoKinds nl_Unmarshal 42 notifs_init (MarshalJSON nl_Marshal nfMixed) = Some r' \<and>
         uuids (nls r') = {''u1''} \<and> uuids (fin r') = {''u2''} \<and>
         map_option (\<lambda>y. (nl_kind y, nl_variant y, nl_added y)) (map_of (nls r') ''u1'')
           = Some (''rebalance'', NotifXactListener, 42) \<and>
         map_option (\<lambda>y. (nl_kind y, nl_variant y, nl_added y)) (map_of (fin r') ''u2'')
           = Some (''single'', NotifDownloadListerner, 42)"
    apply (rule exE[OF T1])
    subgoal premises R for r1
    proof -
      note R3 = R[THEN conjunct2, THEN conjunct2, THEN conjunct2]
      note R6 = R3[THEN conjunct2, THEN conjunct2, THEN conjunct2]
      note u = R[THEN conjunct1]
      note n3 = R3[THEN conjunct1, THEN spec, THEN spec, THEN mp, OF conjI[OF i1 m1]]
      note f3 = R6[THEN conjunct1, THEN spec, THEN spec, THEN mp, OF conjI[OF i2 m2]]
      note c = R6[THEN conjunct2, THEN mp, OF refl]
      have y1: "map_option (\<lambda>y. (nl_kind y, nl_variant y, nl_added y)) (map_of (nls r1) ''u1'')
           = Some (''rebalance'', NotifXactListener, 42)"
        using n3 by (auto simp add: demoNL_def demoKinds_def)
      have y2: "map_option (\<lambda>y. (nl_kind y, nl_variant y, nl_added y)) (map_of (fin r1) ''u2'')
           = Some (''single'', NotifDownloadListerner, 42)"
        using f3 by (auto simp add: demoKinds_def)
      show ?thesis
        using u c y1 y2 unfolding un by (intro exI[of _ r1]) simp
    qed
    done
  have B: "\<exists>r'. UnmarshalJSON demoKinds nl_Unmarshal 42 nfRun (MarshalJSON nl_Marshal nfMixed) = Some r' \<and>
         map_of (fin r') ''u2'' = Some (demoNL ''u2'') \<and>
         map_option nl_added (map_of (nls r') ''u1'') = Some 0"
    apply (rule exE[OF T2])
    subgoal premises R for r2
    proof -
      note R4 = R[THEN conjunct2, THEN conjunct2, THEN conjunct2, THEN conjunct2]
      note u = R[THEN conjunct1]
      note n1 = R[THEN conjunct2, THEN conjunct1, THEN spec, THEN spec, THEN mp, OF p1]
      note f1 = R4[THEN conjunct1, THEN spec, THEN spec, THEN mp, OF p2]
      have "map_option nl_added (map_of (nls r2) ''u1'') = Some 0"
        using n1 by (simp add: demoNL_def)
      then show ?thesis
        using u f1 by (intro exI[of _ r2]) simp
    qed
    done
  show ?thesis using A B by (rule conjI)
qed

end
